theory Spec2Isabelle
  imports Complex_Main "HOL-Library.Multiset"
begin

section \<open>Python primitives used by the pipeline\<close>

text \<open>
  Python slicing never raises: an index is first normalised against the length of the
  sequence. A negative index counts from the end and is clamped at 0, a non-negative one
  is clamped at the length. \<open>py_bound n i\<close> is that normalised position.
\<close>

definition py_bound :: "nat \<Rightarrow> int \<Rightarrow> nat" where
  "py_bound n i = (if i < 0 then nat (int n + i) else min (nat i) n)"

text \<open>\<open>xs[s:e]\<close>, \<open>xs[:s]\<close> and \<open>xs[e:]\<close>.\<close>

definition py_slice :: "'a list \<Rightarrow> int \<Rightarrow> int \<Rightarrow> 'a list" where
  "py_slice xs s e =
     (let a = py_bound (length xs) s; b = py_bound (length xs) e
      in take (b - a) (drop a xs))"

definition py_prefix :: "'a list \<Rightarrow> int \<Rightarrow> 'a list" where
  "py_prefix xs s = take (py_bound (length xs) s) xs"

definition py_suffix :: "'a list \<Rightarrow> int \<Rightarrow> 'a list" where
  "py_suffix xs e = drop (py_bound (length xs) e) xs"

text \<open>
  \<open>sorted(xs, key=key, reverse=True)\<close>: CPython reverses the list, sorts it with its
  stable sort and reverses the result, so that elements with equal keys keep their
  original order. \<open>sort_key\<close> is the stable insertion sort of the HOL library.
\<close>

definition py_sorted_reverse :: "('a \<Rightarrow> int) \<Rightarrow> 'a list \<Rightarrow> 'a list" where
  "py_sorted_reverse key xs = rev (sort_key key (rev xs))"

section \<open>Data model\<close>

text \<open>
  An entity is the dictionary that every detector and the ML adapter build. The key
  \<open>end\<close> is the field \<open>endpos\<close> here. The key \<open>method\<close> is the field \<open>detect_method\<close>; it is optional: the adapter of
  \<open>backend/main.py\<close> does not set it, and the fuser tests for its presence. Scores are
  only compared and maximised by the code under study, so they are read as real numbers.
\<close>

record entity =
  entity_group :: string
  score :: real
  word :: string
  start :: int
  endpos :: int
  detect_method :: "string option"

section \<open>Anonymizer\<close>

text \<open>
  \<open>_anonymize\<close> of \<open>backend/main.py\<close>, \<open>backend/enhanced_main.py\<close> and
  \<open>backend/validated_enhanced_main.py\<close> (the three copies are identical). One pass of
  the loop body is \<open>replace_span\<close>: \<open>redacted[:s] + replacement + redacted[e:]\<close>.
\<close>

definition replace_span :: "string \<Rightarrow> string \<Rightarrow> entity \<Rightarrow> string" where
  "replace_span replacement redacted ent =
     py_prefix redacted (start ent) @ replacement @ py_suffix redacted (endpos ent)"

definition anonymize :: "string \<Rightarrow> entity list \<Rightarrow> string \<Rightarrow> string" where
  "anonymize text entities replacement =
     (if entities = [] then text
      else foldl (replace_span replacement) text (py_sorted_reverse start entities))"

text \<open>
  The vocabulary of the specification: a span is valid for a text when
  \<open>0 \<le> start < end \<le> len(text)\<close>; two spans are disjoint when one ends before the
  other starts; a list of entities is non-overlapping when its members are pairwise
  disjoint.
\<close>

definition valid_span :: "string \<Rightarrow> entity \<Rightarrow> bool" where
  "valid_span text e \<longleftrightarrow> 0 \<le> start e \<and> start e < endpos e \<and> endpos e \<le> int (length text)"

definition disjoint_spans :: "entity \<Rightarrow> entity \<Rightarrow> bool" where
  "disjoint_spans a b \<longleftrightarrow> endpos a \<le> start b \<or> endpos b \<le> start a"

definition non_overlapping :: "entity list \<Rightarrow> bool" where
  "non_overlapping es = sorted_wrt disjoint_spans es"

text \<open>
  The redaction the specification describes, read from left to right over the original
  text: the characters from \<open>pos\<close> up to the next span are kept, the span is replaced
  by the token once, and the scan goes on behind the span.
\<close>

fun redact_spec :: "string \<Rightarrow> nat \<Rightarrow> entity list \<Rightarrow> string \<Rightarrow> string" where
  "redact_spec text pos [] R = drop pos text"
| "redact_spec text pos (x # xs) R =
     take (nat (start x) - pos) (drop pos text) @ R @ redact_spec text (nat (endpos x)) xs R"

text \<open>An ascending chain of non-empty spans, each starting at or behind the end of the one before.\<close>

fun chain_asc :: "int \<Rightarrow> entity list \<Rightarrow> bool" where
  "chain_asc pos [] = True"
| "chain_asc pos (x # xs) = (pos \<le> start x \<and> start x < endpos x \<and> chain_asc (endpos x) xs)"

definition span_len :: "entity \<Rightarrow> int" where
  "span_len e = endpos e - start e"

section \<open>Entity fuser\<close>

text \<open>
  \<open>_merge_entities\<close> of \<open>backend/enhanced_main.py\<close> and of \<open>enhanced_pii_detector.py\<close>
  (identical). \<open>merge_into\<close> is the body of the merging branch: the four assignments to
  \<open>current\<close>, in the order of the source; the method is only touched when the examined
  entity has one, and a missing method of \<open>current\<close> reads as the empty string.
\<close>

definition merge_into :: "entity \<Rightarrow> entity \<Rightarrow> entity" where
  "merge_into current entity =
     (let c1 = current\<lparr>endpos := max (endpos current) (endpos entity)\<rparr>;
          c2 = c1\<lparr>word := word entity\<rparr>;
          c3 = c2\<lparr>score := max (score c2) (score entity)\<rparr>
      in case detect_method entity of
           None \<Rightarrow> c3
         | Some m \<Rightarrow>
             c3\<lparr>detect_method :=
                  Some ((case detect_method c3 of None \<Rightarrow> [] | Some cm \<Rightarrow> cm) @ ''+'' @ m)\<rparr>)"

text \<open>The \<open>for\<close> loop over \<open>entities[1:]\<close>, with the list \<open>merged\<close> and the open entity
  \<open>current\<close> as its state, followed by the final \<open>merged.append(current)\<close>.\<close>

fun merge_loop :: "entity list \<Rightarrow> entity \<Rightarrow> entity list \<Rightarrow> entity list" where
  "merge_loop merged current [] = merged @ [current]"
| "merge_loop merged current (entity # rest) =
     (if start entity < endpos current \<and> entity_group entity = entity_group current
      then merge_loop merged (merge_into current entity) rest
      else merge_loop (merged @ [current]) entity rest)"

text \<open>\<open>entities.sort(key=...)\<close> is Python's stable sort, \<open>sort_key\<close> here.\<close>

definition merge_entities :: "entity list \<Rightarrow> entity list" where
  "merge_entities entities =
     (if entities = [] then []
      else let sorted_entities = sort_key start entities
           in merge_loop [] (hd sorted_entities) (tl sorted_entities))"

text \<open>
  The fuser as the specification words it, for candidates that all carry a method: a
  scan over the stably sorted candidates that keeps the list of closed entities and the
  open entity, if any; a candidate that overlaps the open entity and has its category is
  fused into it, any other candidate closes it; the open entity is flushed at the end.
\<close>

definition has_method :: "entity \<Rightarrow> bool" where
  "has_method e \<longleftrightarrow> detect_method e \<noteq> None"

definition fuse_pair :: "entity \<Rightarrow> entity \<Rightarrow> entity" where
  "fuse_pair current nxt =
     \<lparr>entity_group = entity_group current,
      score = max (score current) (score nxt),
      word = word nxt,
      start = start current,
      endpos = max (endpos current) (endpos nxt),
      detect_method =
        (case (detect_method current, detect_method nxt) of
           (Some a, Some b) \<Rightarrow> Some (a @ ''+'' @ b)
         | _ \<Rightarrow> None)\<rparr>"

fun fuse_step :: "entity list \<times> entity option \<Rightarrow> entity \<Rightarrow> entity list \<times> entity option" where
  "fuse_step (out, None) nxt = (out, Some nxt)"
| "fuse_step (out, Some current) nxt =
     (if start nxt < endpos current \<and> entity_group nxt = entity_group current
      then (out, Some (fuse_pair current nxt))
      else (out @ [current], Some nxt))"

fun fuse_flush :: "entity list \<times> entity option \<Rightarrow> entity list" where
  "fuse_flush (out, None) = out"
| "fuse_flush (out, Some current) = out @ [current]"

definition merge_spec :: "entity list \<Rightarrow> entity list" where
  "merge_spec candidates = fuse_flush (foldl fuse_step ([], None) (sort_key start candidates))"

text \<open>The merging test of the scan, and lists in which no entity merges with its successor.\<close>

definition mergeable :: "entity \<Rightarrow> entity \<Rightarrow> bool" where
  "mergeable current nxt \<longleftrightarrow> start nxt < endpos current \<and> entity_group nxt = entity_group current"

fun settled :: "entity list \<Rightarrow> bool" where
  "settled [] = True"
| "settled [x] = True"
| "settled (x # y # r) = (\<not> mergeable x y \<and> settled (y # r))"

section \<open>Regular expressions and the schema\<close>

text \<open>
  The regular-expression engine is Python's \<open>re\<close> module, outside the repository. A
  compiled pattern is modelled by what the code uses of it: its source text
  (\<open>.pattern\<close>), whether it matches a string from the start (\<open>.match(s)\<close> is not
  \<open>None\<close>), and what the engine finds when it tries the pattern at one position of a
  text (\<open>match_at\<close>): nothing, or the length of the match together with the span of its
  group 1. The flag of \<open>match_at\<close> tells the engine that it must advance, that is, that
  an empty match is not accepted at this position. Of a match the code reads \<open>start()\<close>,
  \<open>end()\<close> and \<open>group()\<close>, and the same for group 1 (which takes part in every match of
  the contextual patterns).
\<close>

record py_match =
  m_start :: int
  m_end :: int
  m_group :: string
  m_start1 :: int
  m_end1 :: int
  m_group1 :: string

record regex =
  pattern :: string
  match :: "string \<Rightarrow> bool"
  match_at :: "string \<Rightarrow> nat \<Rightarrow> bool \<Rightarrow> (nat \<times> nat \<times> nat) option"

text \<open>
  A match object answers \<open>start()\<close> and \<open>end()\<close> by its span and \<open>group()\<close> by the slice
  of the scanned string at that span, as the library documents it; likewise for group 1.
\<close>

definition make_match :: "string \<Rightarrow> nat \<Rightarrow> nat \<Rightarrow> nat \<Rightarrow> nat \<Rightarrow> py_match" where
  "make_match text s e s1 e1 =
     \<lparr>m_start = int s, m_end = int e, m_group = py_slice text (int s) (int e),
      m_start1 = int s1, m_end1 = int e1, m_group1 = py_slice text (int s1) (int e1)\<rparr>"

text \<open>
  \<open>finditer\<close> is the documented scan: the string is scanned from left to right and the
  non-overlapping matches are reported in the order found, empty matches included. A
  match is reported at the first position where the pattern matches and the scan goes on
  behind it. After an empty match the engine tries the same position again and must
  advance: it reports a non-empty match that starts there, or moves one position on. The
  last attempt is made at the end of the string. In \<open>re_scan\<close> the position is \<open>i\<close>, the
  rest of the string counts the positions that are left, and \<open>k\<close> positions are skipped
  because they lie inside the match reported last.
\<close>

fun re_scan ::
  "(string \<Rightarrow> nat \<Rightarrow> bool \<Rightarrow> (nat \<times> nat \<times> nat) option) \<Rightarrow> string \<Rightarrow> nat \<Rightarrow> nat \<Rightarrow> string
   \<Rightarrow> py_match list" where
  "re_scan probe text k i [] =
     (if 0 < k then []
      else case probe text i False of
             None \<Rightarrow> []
           | Some (n, s1, e1) \<Rightarrow> [make_match text i (i + n) s1 e1])"
| "re_scan probe text k i (x # xs) =
     (if 0 < k then re_scan probe text (k - 1) (i + 1) xs
      else case probe text i False of
             None \<Rightarrow> re_scan probe text 0 (i + 1) xs
           | Some (n, s1, e1) \<Rightarrow>
               make_match text i (i + n) s1 e1 #
               (if 0 < n then re_scan probe text (n - 1) (i + 1) xs
                else case probe text i True of
                       None \<Rightarrow> re_scan probe text 0 (i + 1) xs
                     | Some (n', s1', e1') \<Rightarrow>
                         make_match text i (i + n') s1' e1' #
                         re_scan probe text (n' - 1) (i + 1) xs))"

definition finditer :: "regex \<Rightarrow> string \<Rightarrow> py_match list" where
  "finditer rx text = re_scan (match_at rx) text 0 0 text"

text \<open>
  The table of compiled patterns is a Python dictionary from category to pattern, in
  insertion order; \<open>None\<close> stands for a pattern that failed to compile. It is an
  association list here; \<open>map_of\<close> is the lookup.
\<close>

type_synonym pattern_table = "(string \<times> regex option) list"

section \<open>Schema validator\<close>

text \<open>The verdict dictionary; the keys that a verdict may lack are optional fields.\<close>

record verdict =
  valid :: bool
  reason :: string
  confidence :: real
  corrected_category :: "string option"
  original_category :: "string option"

text \<open>
  \<open>validate_entity\<close> of \<open>backend/main.py\<close>. \<open>first_specific\<close> is its first loop, over the
  prioritized categories; \<open>first_other\<close> is its second loop, over the items of the table.
  A compiled pattern object is always true as a condition.
\<close>

definition specific_categories :: "string list" where
  "specific_categories =
     [''PAN'', ''TELEPHONENUM'', ''AADHAAR'', ''DRIVERLICENSENUM'', ''EMAIL'', ''IFSC'',
      ''VOTERID'', ''PASSPORTNUM'', ''CREDITCARDNUM'', ''TRANSACTIONID'', ''GENDER'', ''DATE'',
      ''TIME'', ''AGE'', ''ZIPCODE'', ''BUILDINGNUM'']"

fun first_specific :: "pattern_table \<Rightarrow> string \<Rightarrow> string list \<Rightarrow> string option" where
  "first_specific patterns text [] = None"
| "first_specific patterns text (other_category # rest) =
     (case map_of patterns other_category of
        Some (Some p) \<Rightarrow>
          if match p text then Some other_category else first_specific patterns text rest
      | _ \<Rightarrow> first_specific patterns text rest)"

fun first_other :: "pattern_table \<Rightarrow> string \<Rightarrow> string option" where
  "first_other [] text = None"
| "first_other ((other_category, other_pattern) # rest) text =
     (case other_pattern of
        Some p \<Rightarrow>
          if other_category \<noteq> ''STREET'' \<and> pattern p \<noteq> ''.*'' \<and> match p text
          then Some other_category else first_other rest text
      | None \<Rightarrow> first_other rest text)"

definition cross_validated :: "string \<Rightarrow> string \<Rightarrow> real \<Rightarrow> verdict" where
  "cross_validated other_category category conf =
     \<lparr>valid = True,
      reason = ''Cross-validated: matches '' @ other_category @ '' pattern instead of '' @ category,
      confidence = conf,
      corrected_category = Some other_category,
      original_category = Some category\<rparr>"

definition validate_entity :: "pattern_table \<Rightarrow> string \<Rightarrow> string \<Rightarrow> real \<Rightarrow> verdict" where
  "validate_entity patterns category text conf =
     (case map_of patterns category of
        None \<Rightarrow>
          \<lparr>valid = False, reason = ''Unknown category: '' @ category, confidence = conf,
           corrected_category = None, original_category = None\<rparr>
      | Some None \<Rightarrow>
          \<lparr>valid = False, reason = ''No validation pattern available for '' @ category,
           confidence = conf, corrected_category = None, original_category = None\<rparr>
      | Some (Some p) \<Rightarrow>
          if match p text then
            \<lparr>valid = True, reason = ''Matches '' @ category @ '' schema pattern'',
             confidence = conf, corrected_category = Some category, original_category = None\<rparr>
          else
            (case first_specific patterns text specific_categories of
               Some other_category \<Rightarrow> cross_validated other_category category conf
             | None \<Rightarrow>
                 (case first_other patterns text of
                    Some other_category \<Rightarrow> cross_validated other_category category conf
                  | None \<Rightarrow>
                      \<lparr>valid = False,
                       reason = ''Does not match '' @ category @ '' schema pattern: '' @ pattern p,
                       confidence = conf, corrected_category = None,
                       original_category = None\<rparr>)))"

text \<open>\<open>ValidatedEnhancedPIIDetector.validate_entity\<close> of \<open>backend/validated_enhanced_main.py\<close>.\<close>

definition detector_validate_entity ::
  "pattern_table \<Rightarrow> string \<Rightarrow> string \<Rightarrow> real \<Rightarrow> verdict" where
  "detector_validate_entity validation_patterns category text conf =
     (case map_of validation_patterns category of
        None \<Rightarrow>
          \<lparr>valid = False, reason = ''Unknown category: '' @ category, confidence = conf,
           corrected_category = None, original_category = None\<rparr>
      | Some None \<Rightarrow>
          \<lparr>valid = False, reason = ''No validation pattern available for '' @ category,
           confidence = conf, corrected_category = None, original_category = None\<rparr>
      | Some (Some p) \<Rightarrow>
          if match p text then
            \<lparr>valid = True, reason = ''Matches schema pattern'', confidence = conf,
             corrected_category = None, original_category = None\<rparr>
          else
            \<lparr>valid = False, reason = ''Does not match schema pattern: '' @ pattern p,
             confidence = conf, corrected_category = None, original_category = None\<rparr>)"

text \<open>
  The validator as the specification words it. A category matches a text when it has a
  usable pattern that matches the text from the start; a category is a wildcard when its
  pattern is written \<open>.*\<close>. Cross-validation tries the categories other than the original
  one: the prioritized list first, then the remaining categories in table order without
  the wildcards, and the first one that matches wins. \<open>validate_by\<close> has one more
  parameter, the categories that the fallback scan skips by name: the specification
  names none. The result is the summary of a verdict: the valid flag, the corrected
  category and the original category.
\<close>

definition pattern_matches :: "pattern_table \<Rightarrow> string \<Rightarrow> string \<Rightarrow> bool" where
  "pattern_matches patterns text c =
     (case map_of patterns c of Some (Some p) \<Rightarrow> match p text | _ \<Rightarrow> False)"

definition is_wildcard :: "pattern_table \<Rightarrow> string \<Rightarrow> bool" where
  "is_wildcard patterns c =
     (case map_of patterns c of Some (Some p) \<Rightarrow> pattern p = ''.*'' | _ \<Rightarrow> False)"

definition cross_candidates :: "string list \<Rightarrow> pattern_table \<Rightarrow> string \<Rightarrow> string list" where
  "cross_candidates skipped patterns category =
     [c \<leftarrow> specific_categories. c \<noteq> category] @
     [c \<leftarrow> map fst patterns.
        c \<notin> set specific_categories \<and> c \<noteq> category \<and> c \<notin> set skipped \<and> \<not> is_wildcard patterns c]"

definition validate_by ::
  "string list \<Rightarrow> pattern_table \<Rightarrow> string \<Rightarrow> string \<Rightarrow> bool \<times> string option \<times> string option" where
  "validate_by skipped patterns category text =
     (case map_of patterns category of
        Some (Some p) \<Rightarrow>
          if match p text then (True, Some category, None)
          else (case find (pattern_matches patterns text) (cross_candidates skipped patterns category) of
                  Some c \<Rightarrow> (True, Some c, Some category)
                | None \<Rightarrow> (False, None, None))
      | _ \<Rightarrow> (False, None, None))"

definition validate_spec :: "pattern_table \<Rightarrow> string \<Rightarrow> string \<Rightarrow> bool \<times> string option \<times> string option" where
  "validate_spec = validate_by []"

definition verdict_summary :: "verdict \<Rightarrow> bool \<times> string option \<times> string option" where
  "verdict_summary v = (valid v, corrected_category v, original_category v)"

section \<open>ML adapter\<close>

text \<open>
  The token classifier is an external collaborator: a call on the text returns a list of
  result dictionaries or raises. The fields of a result are dynamically typed; the
  adapter reads each numeric field \<open>k\<close> by \<open>int(r.get(k, 0)) if r.get(k) is not None else 0\<close>
  (by \<open>float\<close> for the score), so a field is modelled by the outcome of that expression:
  the field is missing or \<open>None\<close>, the coercion returns a value, or the coercion raises.
\<close>

datatype py_exc = ValueError | TypeError | OverflowError | RuntimeError

datatype 'a coerced = Missing | Coerced 'a | Raises py_exc

record raw_result =
  r_entity_group :: "string option"
  r_entity :: "string option"
  r_score :: "real coerced"
  r_word :: "string option"
  r_start :: "int coerced"
  r_end :: "int coerced"

type_synonym pipeline = "string \<Rightarrow> py_exc + raw_result list"

text \<open>What the adapters print, and the HTTP error that \<open>backend/main.py\<close> raises.\<close>

datatype log_event =
    Running_inference
  | Raw_results
  | Processing_result nat
  | Skipping_malformed py_exc
  | Normalized_results
  | Inference_error py_exc
  | Detection_error
  | ML_detection_error py_exc

datatype http_exception = HTTPException nat

text \<open>\<open>str.isspace\<close> on the code points below 256, and \<open>str.strip()\<close>.\<close>

definition py_isspace :: "char \<Rightarrow> bool" where
  "py_isspace c \<longleftrightarrow> (of_char c :: nat) \<in> {9, 10, 11, 12, 13, 28, 29, 30, 31, 32, 133, 160}"

definition py_strip :: "string \<Rightarrow> string" where
  "py_strip s = rev (dropWhile py_isspace (rev (dropWhile py_isspace s)))"

text \<open>The guarded coercion with its default, and \<open>x or y\<close> on optional strings.\<close>

definition coerce_or :: "'a \<Rightarrow> 'a coerced \<Rightarrow> py_exc + 'a" where
  "coerce_or d c = (case c of Missing \<Rightarrow> Inr d | Coerced v \<Rightarrow> Inr v | Raises e \<Rightarrow> Inl e)"

definition py_or :: "string option \<Rightarrow> string \<Rightarrow> string" where
  "py_or x y = (case x of None \<Rightarrow> y | Some s \<Rightarrow> if s = [] then y else s)"

definition reconstruct_text_from_tokens :: "string \<Rightarrow> int \<Rightarrow> int \<Rightarrow> string" where
  "reconstruct_text_from_tokens original_text s e = py_slice original_text s e"

text \<open>
  The body of the inner \<open>try\<close>: the two offsets, the reconstructed text, then the
  dictionary with the label and the score, in the order of evaluation. The adapters of
  \<open>backend/enhanced_main.py\<close> and \<open>backend/validated_enhanced_main.py\<close> add the method
  \<open>ml\<close>; the adapter of \<open>backend/main.py\<close> adds none.
\<close>

definition normalize_result :: "string option \<Rightarrow> string \<Rightarrow> raw_result \<Rightarrow> py_exc + entity" where
  "normalize_result meth text r =
     (case coerce_or 0 (r_start r) of
        Inl e \<Rightarrow> Inl e
      | Inr s \<Rightarrow>
          (case coerce_or 0 (r_end r) of
             Inl e \<Rightarrow> Inl e
           | Inr e \<Rightarrow>
               (let actual_word = reconstruct_text_from_tokens text s e
                in case coerce_or 0 (r_score r) of
                     Inl ex \<Rightarrow> Inl ex
                   | Inr sc \<Rightarrow>
                       Inr \<lparr>entity_group = py_or (r_entity_group r) (py_or (r_entity r) ''UNKNOWN''),
                            score = sc, word = actual_word, start = s, endpos = e,
                            detect_method = meth\<rparr>)))"

text \<open>
  \<open>_predict\<close> of \<open>backend/enhanced_main.py\<close> and \<open>backend/validated_enhanced_main.py\<close>. The
  inner handler catches \<open>ValueError\<close> and \<open>TypeError\<close> only and goes on with the next
  result; any other exception leaves the loop and reaches the outer handler, which
  prints the error and returns the empty list.
\<close>

fun normalize_loop :: "string \<Rightarrow> raw_result list \<Rightarrow> entity list \<Rightarrow> py_exc + entity list" where
  "normalize_loop text [] normalized_results = Inr normalized_results"
| "normalize_loop text (r # rest) normalized_results =
     (case normalize_result (Some ''ml'') text r of
        Inr ent \<Rightarrow> normalize_loop text rest (normalized_results @ [ent])
      | Inl ex \<Rightarrow>
          if ex = ValueError \<or> ex = TypeError then normalize_loop text rest normalized_results
          else Inl ex)"

definition predict :: "pipeline \<Rightarrow> string \<Rightarrow> log_event list \<times> entity list" where
  "predict pipe text =
     (if text = [] \<or> py_strip text = [] then ([], [])
      else case pipe text of
             Inl ex \<Rightarrow> ([Inference_error ex], [])
           | Inr results \<Rightarrow>
               (case normalize_loop text results [] of
                  Inl ex \<Rightarrow> ([Inference_error ex], [])
                | Inr normalized_results \<Rightarrow> ([], normalized_results)))"

text \<open>
  \<open>_predict\<close> of \<open>backend/main.py\<close>: the same normalisation, with its progress printed, and
  an outer handler that raises \<open>HTTPException(status_code=500)\<close>. \<open>extract_pii_bert\<close> is
  the endpoint that returns the adapter's entities as they are.
\<close>

fun main_normalize_loop ::
  "string \<Rightarrow> nat \<Rightarrow> raw_result list \<Rightarrow> log_event list \<Rightarrow> entity list
   \<Rightarrow> log_event list \<times> (py_exc + entity list)" where
  "main_normalize_loop text i [] printed normalized_results = (printed, Inr normalized_results)"
| "main_normalize_loop text i (r # rest) printed normalized_results =
     (case normalize_result None text r of
        Inr ent \<Rightarrow>
          main_normalize_loop text (Suc i) rest (printed @ [Processing_result i])
            (normalized_results @ [ent])
      | Inl ex \<Rightarrow>
          if ex = ValueError \<or> ex = TypeError
          then main_normalize_loop text (Suc i) rest
                 (printed @ [Processing_result i, Skipping_malformed ex]) normalized_results
          else (printed @ [Processing_result i], Inl ex))"

definition main_predict ::
  "pipeline \<Rightarrow> string \<Rightarrow> log_event list \<times> (http_exception + entity list)" where
  "main_predict pipe text =
     (if text = [] \<or> py_strip text = [] then ([], Inr [])
      else case pipe text of
             Inl ex \<Rightarrow> ([Running_inference, Inference_error ex], Inl (HTTPException 500))
           | Inr results \<Rightarrow>
               (case main_normalize_loop text 0 results [Running_inference, Raw_results] [] of
                  (printed, Inl ex) \<Rightarrow> (printed @ [Inference_error ex], Inl (HTTPException 500))
                | (printed, Inr normalized_results) \<Rightarrow>
                    (printed @ [Normalized_results], Inr normalized_results)))"

definition extract_pii_bert :: "pipeline option \<Rightarrow> string \<Rightarrow> http_exception + entity list" where
  "extract_pii_bert bert_pipe text =
     (case bert_pipe of
        None \<Rightarrow> Inl (HTTPException 503)
      | Some pipe \<Rightarrow> snd (main_predict pipe text))"


section \<open>Detection and validation of candidates\<close>

text \<open>
  A validated entity is the entity dictionary with the keys \<open>validation\<close>, \<open>status\<close>,
  \<open>filter_reason\<close> and, in \<open>backend/main.py\<close>, \<open>original_category\<close> added.
\<close>

record validated_entity = entity +
  validation :: verdict
  status :: string
  filter_reason :: "string option"
  entity_original_category :: "string option"

definition with_validation ::
  "entity \<Rightarrow> verdict \<Rightarrow> string \<Rightarrow> string option \<Rightarrow> validated_entity" where
  "with_validation e v st fr =
     entity.extend e
       (validated_entity.fields v st fr None)"

text \<open>
  \<open>detect_with_regex\<close> and \<open>detect_contextual_pii\<close> of
  \<open>backend/validated_enhanced_main.py\<close>: one entity for every match of every usable
  pattern; the contextual detector reads group 1 of its matches.
\<close>

definition regex_entity :: "string \<Rightarrow> py_match \<Rightarrow> entity" where
  "regex_entity category m =
     \<lparr>entity_group = category, score = 0.95, word = m_group m, start = m_start m,
      endpos = m_end m, detect_method = Some ''regex_enhanced''\<rparr>"

definition detect_with_regex :: "pattern_table \<Rightarrow> string \<Rightarrow> entity list" where
  "detect_with_regex regex_patterns text =
     concat (map (\<lambda>(category, p).
                    case p of
                      None \<Rightarrow> []
                    | Some rx \<Rightarrow> map (regex_entity category) (finditer rx text))
               regex_patterns)"

definition contextual_entity :: "string \<Rightarrow> py_match \<Rightarrow> entity" where
  "contextual_entity category m =
     \<lparr>entity_group = category, score = 0.9, word = m_group1 m, start = m_start1 m,
      endpos = m_end1 m, detect_method = Some ''contextual''\<rparr>"

definition detect_contextual_pii :: "(regex \<times> string) list \<Rightarrow> string \<Rightarrow> entity list" where
  "detect_contextual_pii patterns text =
     concat (map (\<lambda>(rx, category). map (contextual_entity category) (finditer rx text)) patterns)"







text \<open>
  \<open>detect_comprehensive\<close> of \<open>backend/validated_enhanced_main.py\<close>: the candidates of both
  detectors go through the validation loop. Of the summary, the counts are kept; the
  averages and the set of categories, which no property here reads, are left out.
\<close>

record detection =
  det_entities :: "validated_entity list"
  det_filtered_entities :: "validated_entity list"
  det_methods_used :: "string list"
  det_total_entities :: nat
  det_filtered_count :: nat

fun validation_loop ::
  "pattern_table \<Rightarrow> real \<Rightarrow> entity list
   \<Rightarrow> validated_entity list \<times> validated_entity list \<times> nat
   \<Rightarrow> validated_entity list \<times> validated_entity list \<times> nat" where
  "validation_loop ps min_confidence [] acc = acc"
| "validation_loop ps min_confidence (entity # rest)
     (validated_entities, filtered_entities, filtered_count) =
     (let category = entity_group entity;
          text = word entity;
          conf = score entity;
          validation = detector_validate_entity ps category text conf
      in if valid validation \<and> conf \<ge> min_confidence
         then validation_loop ps min_confidence rest
                (validated_entities @ [with_validation entity validation ''VALID'' None],
                 filtered_entities, filtered_count)
         else validation_loop ps min_confidence rest
                (validated_entities,
                 filtered_entities @
                   [with_validation entity validation ''FILTERED'' (Some (reason validation))],
                 filtered_count + 1))"

definition detect_comprehensive ::
  "pattern_table \<Rightarrow> pattern_table \<Rightarrow> (regex \<times> string) list \<Rightarrow> string \<Rightarrow> real \<Rightarrow> detection" where
  "detect_comprehensive validation_patterns regex_patterns contextual_patterns text min_confidence =
     (let regex_entities = detect_with_regex regex_patterns text;
          methods1 = (if regex_entities \<noteq> [] then [''regex''] else []);
          contextual_entities = detect_contextual_pii contextual_patterns text;
          methods2 = methods1 @ (if contextual_entities \<noteq> [] then [''contextual''] else []);
          (validated_entities, filtered_entities, filtered_count) =
             validation_loop validation_patterns min_confidence
               (regex_entities @ contextual_entities) ([], [], 0)
      in \<lparr>det_entities = validated_entities,
          det_filtered_entities = filtered_entities,
          det_methods_used = methods2,
          det_total_entities = length validated_entities,
          det_filtered_count = filtered_count\<rparr>)"

text \<open>
  \<open>validated_detect_pii\<close> of \<open>backend/main.py\<close>: the candidates are the entities of the
  loaded models, each call wrapped in a handler that prints and goes on; a valid entity
  takes the corrected category of its verdict and keeps the original one.
\<close>

definition ml_candidates :: "bool \<Rightarrow> pipeline option \<Rightarrow> string \<Rightarrow> log_event list \<times> entity list" where
  "ml_candidates use_ml pipe text =
     (case pipe of
        None \<Rightarrow> ([], [])
      | Some p \<Rightarrow>
          if use_ml then
            (case main_predict p text of
               (printed, Inr entities) \<Rightarrow> (printed, entities)
             | (printed, Inl _) \<Rightarrow> (printed @ [Detection_error], []))
          else ([], []))"

definition corrected_entity :: "entity \<Rightarrow> verdict \<Rightarrow> validated_entity" where
  "corrected_entity entity verd =
     (let e = with_validation entity verd ''VALID'' None
      in case corrected_category verd of
           Some cc \<Rightarrow> e\<lparr>entity_group := cc, entity_original_category := Some (entity_group entity)\<rparr>
         | None \<Rightarrow> e)"

fun main_validation_loop ::
  "pattern_table \<Rightarrow> real \<Rightarrow> entity list
   \<Rightarrow> validated_entity list \<times> validated_entity list
   \<Rightarrow> validated_entity list \<times> validated_entity list" where
  "main_validation_loop ps min_confidence [] acc = acc"
| "main_validation_loop ps min_confidence (entity # rest) (valid_entities, filtered_entities) =
     (let category = entity_group entity;
          text = word entity;
          conf = score entity;
          validation = validate_entity ps category text conf
      in if valid validation \<and> conf \<ge> min_confidence
         then main_validation_loop ps min_confidence rest
                (valid_entities @ [corrected_entity entity validation], filtered_entities)
         else main_validation_loop ps min_confidence rest
                (valid_entities,
                 filtered_entities @
                   [with_validation entity validation ''FILTERED'' (Some (reason validation))]))"

definition validated_detect_pii ::
  "pattern_table \<Rightarrow> pipeline option \<Rightarrow> pipeline option \<Rightarrow> string \<Rightarrow> bool \<Rightarrow> real \<Rightarrow> detection" where
  "validated_detect_pii ps bert_pipe llama_pipe text use_ml min_confidence =
     (if py_strip text = []
      then \<lparr>det_entities = [], det_filtered_entities = [], det_methods_used = [],
            det_total_entities = 0, det_filtered_count = 0\<rparr>
      else
        (let all_entities = snd (ml_candidates use_ml bert_pipe text)
                            @ snd (ml_candidates use_ml llama_pipe text);
             (valid_entities, filtered_entities) =
                main_validation_loop ps min_confidence all_entities ([], [])
         in \<lparr>det_entities = valid_entities,
             det_filtered_entities = filtered_entities,
             det_methods_used = (if use_ml then [''ml''] else []),
             det_total_entities = length valid_entities,
             det_filtered_count = length filtered_entities\<rparr>))"

text \<open>The acceptance test of both loops, and the verdict of a candidate.\<close>

definition accepted :: "(entity \<Rightarrow> verdict) \<Rightarrow> real \<Rightarrow> entity \<Rightarrow> bool" where
  "accepted verdict_of min_confidence e \<longleftrightarrow> valid (verdict_of e) \<and> score e \<ge> min_confidence"

definition detector_verdict :: "pattern_table \<Rightarrow> entity \<Rightarrow> verdict" where
  "detector_verdict ps e = detector_validate_entity ps (entity_group e) (word e) (score e)"

definition main_verdict :: "pattern_table \<Rightarrow> entity \<Rightarrow> verdict" where
  "main_verdict ps e = validate_entity ps (entity_group e) (word e) (score e)"

text \<open>
  Vocabulary for the properties of the adapter: a blank text, the first exception that
  the offset coercions of a result raise, and entities whose text is the slice of the
  input at their offsets.
\<close>

definition blank :: "string \<Rightarrow> bool" where
  "blank text \<longleftrightarrow> text = [] \<or> py_strip text = []"

definition offset_error :: "raw_result \<Rightarrow> py_exc option" where
  "offset_error r =
     (case r_start r of
        Raises ex \<Rightarrow> Some ex
      | _ \<Rightarrow> (case r_end r of Raises ex \<Rightarrow> Some ex | _ \<Rightarrow> None))"


text \<open>
  What the specification expects of the adapter for a result none of whose coercions
  raises: the offsets as reported, 0 where the field is absent; the text reconstructed
  from the input at these offsets; the label \<open>entity_group\<close>, else \<open>entity\<close>, else
  \<open>UNKNOWN\<close>; the score, 0 where absent.
\<close>

definition or_zero :: "'a::zero coerced \<Rightarrow> 'a" where
  "or_zero c = (case c of Coerced v \<Rightarrow> v | _ \<Rightarrow> 0)"

definition raises_nothing :: "raw_result \<Rightarrow> bool" where
  "raises_nothing r =
     (case r_start r of
        Raises _ \<Rightarrow> False
      | _ \<Rightarrow> (case r_end r of
                Raises _ \<Rightarrow> False
              | _ \<Rightarrow> (case r_score r of Raises _ \<Rightarrow> False | _ \<Rightarrow> True)))"

definition expected_label :: "raw_result \<Rightarrow> string" where
  "expected_label r =
     (case r_entity_group r of
        Some (c # cs) \<Rightarrow> c # cs
      | _ \<Rightarrow> (case r_entity r of Some (c # cs) \<Rightarrow> c # cs | _ \<Rightarrow> ''UNKNOWN''))"

definition expected_entity :: "string option \<Rightarrow> string \<Rightarrow> raw_result \<Rightarrow> entity" where
  "expected_entity meth text r =
     \<lparr>entity_group = expected_label r,
      score = or_zero (r_score r),
      word = py_slice text (or_zero (r_start r)) (or_zero (r_end r)),
      start = or_zero (r_start r),
      endpos = or_zero (r_end r),
      detect_method = meth\<rparr>"








section \<open>A small executable engine and example inputs\<close>

text \<open>
  Patterns that are a fixed sequence of character classes can be run: \<open>match_classes\<close>
  matches the sequence at the start of a string, and \<open>class_match_at\<close> tries it at a
  position of a text; the classes \<open>pre\<close> stand in front of group 1, the classes \<open>cs\<close>
  are group 1. The example schemas and collaborator results below are built from them.
\<close>

definition char_in :: "string \<Rightarrow> char \<Rightarrow> bool" where
  "char_in cs c \<longleftrightarrow> c \<in> set cs"

definition digit :: "char \<Rightarrow> bool" where
  "digit = char_in ''0123456789''"

definition upper :: "char \<Rightarrow> bool" where
  "upper = char_in ''ABCDEFGHIJKLMNOPQRSTUVWXYZ''"

definition lower :: "char \<Rightarrow> bool" where
  "lower = char_in ''abcdefghijklmnopqrstuvwxyz''"

fun match_classes :: "(char \<Rightarrow> bool) list \<Rightarrow> string \<Rightarrow> bool" where
  "match_classes [] s = True"
| "match_classes (c # cs) [] = False"
| "match_classes (c # cs) (x # xs) = (c x \<and> match_classes cs xs)"

definition class_match_at ::
  "(char \<Rightarrow> bool) list \<Rightarrow> (char \<Rightarrow> bool) list \<Rightarrow> string \<Rightarrow> nat \<Rightarrow> bool
   \<Rightarrow> (nat \<times> nat \<times> nat) option" where
  "class_match_at pre cs text i advance =
     (if match_classes (pre @ cs) (drop i text) \<and>
         (if advance then 0 < length pre + length cs else True)
      then Some (length pre + length cs, i + length pre, i + length pre + length cs)
      else None)"

definition cue_regex :: "string \<Rightarrow> (char \<Rightarrow> bool) list \<Rightarrow> (char \<Rightarrow> bool) list \<Rightarrow> regex" where
  "cue_regex src pre cs =
     \<lparr>pattern = src, match = match_classes (pre @ cs), match_at = class_match_at pre cs\<rparr>"

definition class_regex :: "string \<Rightarrow> (char \<Rightarrow> bool) list \<Rightarrow> regex" where
  "class_regex src cs = cue_regex src [] cs"

definition aadhaar_rx :: regex where
  "aadhaar_rx = class_regex ''[0-9]{4} [0-9]{4} [0-9]{4}''
     (replicate 4 digit @ [char_in '' ''] @ replicate 4 digit @ [char_in '' ''] @ replicate 4 digit)"

definition phone_rx :: regex where
  "phone_rx = class_regex ''[6-9][0-9]{9}'' (char_in ''6789'' # replicate 9 digit)"

definition city_rx :: regex where
  "city_rx = class_regex ''[A-Z][a-z]{2}'' [upper, lower, lower]"

definition street_rx :: regex where
  "street_rx = class_regex ''[0-9] [A-Z]'' [digit, char_in '' '', upper]"



definition id_schema :: pattern_table where
  "id_schema = [(''AADHAAR'', Some aadhaar_rx), (''TELEPHONENUM'', Some phone_rx)]"

definition address_schema :: pattern_table where
  "address_schema = [(''CITY'', Some city_rx), (''STREET'', Some street_rx)]"

definition phone_result :: raw_result where
  "phone_result =
     \<lparr>r_entity_group = Some ''TELEPHONENUM'', r_entity = None, r_score = Coerced 0.9,
      r_word = Some ''##543210'', r_start = Coerced 5, r_end = Coerced 15\<rparr>"

definition span_entity :: "int \<Rightarrow> int \<Rightarrow> entity" where
  "span_entity s e =
     \<lparr>entity_group = ''ACCOUNTNUM'', score = 1, word = [], start = s, endpos = e,
      detect_method = None\<rparr>"

definition leading_result :: raw_result where
  "leading_result =
     \<lparr>r_entity_group = Some ''TELEPHONENUM'', r_entity = None, r_score = Coerced 0.9,
      r_word = Some ''9876543210'', r_start = Coerced 0, r_end = Coerced 10\<rparr>"

definition bare_result :: raw_result where
  "bare_result =
     \<lparr>r_entity_group = None, r_entity = None, r_score = Missing, r_word = None,
      r_start = Missing, r_end = Missing\<rparr>"

definition malformed_result :: "py_exc \<Rightarrow> raw_result" where
  "malformed_result ex =
     \<lparr>r_entity_group = Some ''EMAIL'', r_entity = None, r_score = Coerced 0.8,
      r_word = Some ''x'', r_start = Raises ex, r_end = Coerced 3\<rparr>"

definition returning :: "raw_result list \<Rightarrow> pipeline" where
  "returning results = (\<lambda>text. Inr results)"

definition failing :: "py_exc \<Rightarrow> pipeline" where
  "failing ex = (\<lambda>text. Inl ex)"

section \<open>Properties of the Python primitives\<close>

lemma py_bound_nat: "n \<le> m \<Longrightarrow> py_bound m (int n) = n"
  by (simp add: py_bound_def)

lemma py_prefix_nat: "n \<le> length xs \<Longrightarrow> py_prefix xs (int n) = take n xs"
  by (simp add: py_prefix_def py_bound_nat)

lemma py_suffix_nat: "n \<le> length xs \<Longrightarrow> py_suffix xs (int n) = drop n xs"
  by (simp add: py_suffix_def py_bound_nat)

lemma sorted_wrt_insort_key_sym:
  assumes "\<And>a b. P a b \<Longrightarrow> P b a"
  shows "sorted_wrt P (insort_key f x xs) = sorted_wrt P (x # xs)"
proof (induction xs)
  case Nil
  then show ?case by simp
next
  case (Cons y ys)
  then show ?case using assms by (auto simp: set_insort_key)
qed

lemma sorted_wrt_sort_key_sym:
  assumes "\<And>a b. P a b \<Longrightarrow> P b a"
  shows "sorted_wrt P (sort_key f xs) = sorted_wrt P xs"
proof (induction xs)
  case Nil
  then show ?case by simp
next
  case (Cons y ys)
  have "sort_key f (y # ys) = insort_key f y (sort_key f ys)" by (simp add: sort_key_def)
  then show ?case using Cons sorted_wrt_insort_key_sym[of P f y "sort_key f ys", OF assms]
    by simp
qed

lemma sort_key_rev_distinct:
  fixes f :: "'a \<Rightarrow> int"
  assumes "distinct (map f xs)"
  shows "sort_key f (rev xs) = sort_key f xs"
proof (rule map_sorted_distinct_set_unique[where f = f])
  show "inj_on f (set (sort_key f (rev xs)) \<union> set (sort_key f xs))"
    using assms by (simp add: distinct_map)
  show "distinct (map f (sort_key f (rev xs)))"
    using assms by (simp add: distinct_map rev_map[symmetric] del: rev_map)
  show "distinct (map f (sort_key f xs))"
    using assms by (simp add: distinct_map)
qed simp_all

lemma sum_list_insort_key:
  fixes g :: "'a \<Rightarrow> int"
  shows "(\<Sum>e\<leftarrow>insort_key f x xs. g e) = g x + (\<Sum>e\<leftarrow>xs. g e)"
  by (induction xs) auto

lemma sum_list_sort_key:
  fixes g :: "'a \<Rightarrow> int"
  shows "(\<Sum>e\<leftarrow>sort_key f xs. g e) = (\<Sum>e\<leftarrow>xs. g e)"
  by (induction xs) (auto simp: sort_key_def sum_list_insort_key)

lemma sorted_py_sorted_reverse: "sorted (rev (map key (py_sorted_reverse key xs)))"
  by (simp add: py_sorted_reverse_def rev_map[symmetric] del: rev_map)

lemma mset_py_sorted_reverse: "mset (py_sorted_reverse key xs) = mset xs"
  by (simp add: py_sorted_reverse_def)

section \<open>Anonymizer: proofs\<close>

lemma replace_span_nat:
  assumes "start x = int s" "endpos x = int e" "s \<le> length t" "e \<le> length t"
  shows "replace_span R t x = take s t @ R @ drop e t"
  using assms by (simp add: replace_span_def py_prefix_nat py_suffix_nat)

text \<open>
  Processing an ascending chain from its last span to its first leaves the text in front
  of \<open>pos\<close> untouched and produces the left-to-right redaction behind it.
\<close>

lemma foldr_replace_chain:
  assumes "chain_asc (int pos) xs" "\<forall>x\<in>set xs. endpos x \<le> int (length t)" "pos \<le> length t"
  shows "foldr (\<lambda>x r. replace_span R r x) xs t = take pos t @ redact_spec t pos xs R"
  using assms
proof (induction xs arbitrary: pos)
  case Nil
  then show ?case by simp
next
  case (Cons x xs)
  define s where "s = nat (start x)"
  define e where "e = nat (endpos x)"
  from Cons.prems have se: "start x = int s" "endpos x = int e"
    and ord: "pos \<le> s" "s < e" "e \<le> length t"
    by (auto simp: s_def e_def)
  have ch: "chain_asc (int e) xs" using Cons.prems(1) se by simp
  have IH: "foldr (\<lambda>x r. replace_span R r x) xs t = take e t @ redact_spec t e xs R"
    using Cons.IH[OF ch] Cons.prems(2) ord by simp
  define rest where "rest = redact_spec t e xs R"
  have l1: "s \<le> length (take e t @ rest)" and l2: "e \<le> length (take e t @ rest)"
    using ord by simp_all
  have "replace_span R (take e t @ rest) x = take s (take e t @ rest) @ R @ drop e (take e t @ rest)"
    by (rule replace_span_nat[OF se l1 l2])
  also have "take s (take e t @ rest) = take s t" using ord by (simp add: min_def)
  also have "drop e (take e t @ rest) = rest" using ord by simp
  finally have step: "replace_span R (take e t @ rest) x = take s t @ R @ rest" .
  have "take pos t @ take (s - pos) (drop pos t) = take s t"
    using ord by (metis le_add_diff_inverse take_add)
  then show ?case using IH step se by (simp add: rest_def)
qed

lemma disjoint_spans_sym: "disjoint_spans a b \<Longrightarrow> disjoint_spans b a"
  by (auto simp: disjoint_spans_def)

lemma non_overlapping_sort_key: "non_overlapping (sort_key f es) = non_overlapping es"
  unfolding non_overlapping_def
  by (rule sorted_wrt_sort_key_sym) (rule disjoint_spans_sym)

lemma non_overlapping_distinct_start:
  assumes "non_overlapping es" "\<forall>e\<in>set es. start e < endpos e"
  shows "distinct (map start es)"
  using assms
proof (induction es)
  case Nil
  then show ?case by simp
next
  case (Cons x xs)
  have "start x \<notin> start ` set xs"
  proof
    assume "start x \<in> start ` set xs"
    then obtain y where y: "y \<in> set xs" "start y = start x" by auto
    with Cons.prems have "disjoint_spans x y" "start x < endpos x" "start y < endpos y"
      by (auto simp: non_overlapping_def)
    with y show False by (auto simp: disjoint_spans_def)
  qed
  with Cons show ?case by (simp add: non_overlapping_def)
qed

lemma chain_asc_sorted:
  assumes "sorted (map start xs)" "non_overlapping xs"
    "\<forall>e\<in>set xs. start e < endpos e" "\<forall>e\<in>set xs. pos \<le> start e"
  shows "chain_asc pos xs"
  using assms
proof (induction xs arbitrary: pos)
  case Nil
  then show ?case by simp
next
  case (Cons x xs)
  have "\<forall>e\<in>set xs. endpos x \<le> start e"
  proof
    fix e assume e: "e \<in> set xs"
    with Cons.prems have "disjoint_spans x e" "start x \<le> start e" "start e < endpos e"
      by (auto simp: non_overlapping_def)
    then show "endpos x \<le> start e" by (auto simp: disjoint_spans_def)
  qed
  moreover have "sorted (map start xs)" "non_overlapping xs" "\<forall>e\<in>set xs. start e < endpos e"
    using Cons.prems by (auto simp: non_overlapping_def)
  ultimately have "chain_asc (endpos x) xs" using Cons.IH by blast
  with Cons.prems show ?case by simp
qed

lemma chain_asc_sort_key:
  assumes "\<forall>e\<in>set es. valid_span t e" "non_overlapping es"
  shows "chain_asc (int 0) (sort_key start es)"
  by (rule chain_asc_sorted) (use assms in \<open>auto simp: non_overlapping_sort_key valid_span_def\<close>)

lemma anonymize_foldr:
  "es \<noteq> [] \<Longrightarrow> anonymize t es R = foldr (\<lambda>x r. replace_span R r x) (sort_key start (rev es)) t"
  by (simp add: anonymize_def py_sorted_reverse_def foldr_conv_foldl)

lemma anonymize_redact_spec:
  assumes "\<forall>e\<in>set es. valid_span t e" "non_overlapping es"
  shows "anonymize t es R = redact_spec t 0 (sort_key start es) R"
proof (cases "es = []")
  case True
  then show ?thesis by (simp add: anonymize_def)
next
  case False
  have ne: "\<forall>e\<in>set es. start e < endpos e" using assms(1) by (simp add: valid_span_def)
  have d: "distinct (map start es)" by (rule non_overlapping_distinct_start[OF assms(2) ne])
  have eq: "sort_key start (rev es) = sort_key start es" by (rule sort_key_rev_distinct[OF d])
  have ch: "chain_asc (int 0) (sort_key start es)" by (rule chain_asc_sort_key[OF assms])
  have "foldr (\<lambda>x r. replace_span R r x) (sort_key start es) t
        = take 0 t @ redact_spec t 0 (sort_key start es) R"
    by (rule foldr_replace_chain[OF ch]) (use assms in \<open>auto simp: valid_span_def\<close>)
  then show ?thesis using False eq by (simp add: anonymize_foldr)
qed

lemma length_redact_spec:
  assumes "chain_asc (int pos) xs" "\<forall>x\<in>set xs. endpos x \<le> int (length t)" "pos \<le> length t"
  shows "int (length (redact_spec t pos xs R))
         = int (length t) - int pos - (\<Sum>e\<leftarrow>xs. span_len e) + int (length xs) * int (length R)"
  using assms
proof (induction xs arbitrary: pos)
  case Nil
  then show ?case by simp
next
  case (Cons x xs)
  define s where "s = nat (start x)"
  define e where "e = nat (endpos x)"
  from Cons.prems have se: "start x = int s" "endpos x = int e"
    and ord: "pos \<le> s" "s < e" "e \<le> length t"
    by (auto simp: s_def e_def)
  have ch: "chain_asc (int e) xs" using Cons.prems(1) se by simp
  have IH: "int (length (redact_spec t e xs R))
         = int (length t) - int e - (\<Sum>e\<leftarrow>xs. span_len e) + int (length xs) * int (length R)"
    using Cons.IH[OF ch] Cons.prems(2) ord by simp
  have "int (length (take (s - pos) (drop pos t))) = int s - int pos"
    using ord by simp
  then show ?case using IH se ord
    by (simp add: span_len_def e_def[symmetric] algebra_simps)
qed

text \<open>
  C2, as amended. \<open>anonymize\<close> returns the text unchanged for an empty entity list.
  Otherwise it folds the replacement of one \<open>[start:end)\<close> span over the entities taken
  in descending order of \<open>start\<close> (a permutation of the input whose starts, read
  backwards, are sorted). For pairwise non-overlapping entities with valid spans
  (\<open>0 \<le> start < end \<le> len(text)\<close>) the result is the original text in which every
  listed span is replaced by the token exactly once and every other character is kept,
  in place.
\<close>

theorem anonymize_replaces_spans:
  "anonymize text [] R = text \<and>
   (entities \<noteq> [] \<longrightarrow>
      anonymize text entities R
        = foldl (replace_span R) text (py_sorted_reverse start entities) \<and>
      sorted (rev (map start (py_sorted_reverse start entities))) \<and>
      mset (py_sorted_reverse start entities) = mset entities) \<and>
   (list_all (valid_span text) entities \<and> non_overlapping entities \<longrightarrow>
      anonymize text entities R = redact_spec text 0 (sort_key start entities) R)"
proof (intro conjI impI)
  show "anonymize text [] R = text" by (simp add: anonymize_def)
next
  assume "entities \<noteq> []"
  then show "anonymize text entities R
        = foldl (replace_span R) text (py_sorted_reverse start entities)"
    by (simp add: anonymize_def)
next
  show "sorted (rev (map start (py_sorted_reverse start entities)))"
    by (rule sorted_py_sorted_reverse)
next
  show "mset (py_sorted_reverse start entities) = mset entities"
    by (rule mset_py_sorted_reverse)
next
  assume "list_all (valid_span text) entities \<and> non_overlapping entities"
  then show "anonymize text entities R = redact_spec text 0 (sort_key start entities) R"
    using anonymize_redact_spec by (simp add: list_all_iff)
qed

theorem anonymize_replaces_spans_witness:
  "list_all (valid_span ''Call 9876543210 or a@b.co now'')
     [\<lparr>entity_group = ''EMAIL'', score = 0.9, word = ''a@b.co'', start = 19,
                  endpos = 25, detect_method = Some ''regex''\<rparr>,
                \<lparr>entity_group = ''TELEPHONENUM'', score = 0.95, word = ''9876543210'', start = 5,
                  endpos = 15, detect_method = Some ''ml''\<rparr>] \<and>
   non_overlapping [\<lparr>entity_group = ''EMAIL'', score = 0.9, word = ''a@b.co'', start = 19,
                      endpos = 25, detect_method = Some ''regex''\<rparr>,
                    \<lparr>entity_group = ''TELEPHONENUM'', score = 0.95, word = ''9876543210'', start = 5,
                      endpos = 15, detect_method = Some ''ml''\<rparr>] \<and>
   anonymize ''Call 9876543210 or a@b.co now''
     [\<lparr>entity_group = ''EMAIL'', score = 0.9, word = ''a@b.co'', start = 19,
        endpos = 25, detect_method = Some ''regex''\<rparr>,
      \<lparr>entity_group = ''TELEPHONENUM'', score = 0.95, word = ''9876543210'', start = 5,
        endpos = 15, detect_method = Some ''ml''\<rparr>] ''[REDACTED]''
     = ''Call [REDACTED] or [REDACTED] now''"
  (is "list_all (valid_span ?T) ?ES \<and> _ \<and> anonymize _ _ ?R = ?out")
proof -
  have v: "list_all (valid_span ?T) ?ES" by (simp add: valid_span_def)
  have n: "non_overlapping ?ES" by (simp add: non_overlapping_def disjoint_spans_def)
  have s: "redact_spec ?T 0 (sort_key start ?ES) ?R = ?out" by simp
  have a: "anonymize ?T ?ES ?R = redact_spec ?T 0 (sort_key start ?ES) ?R"
    using anonymize_replaces_spans[of ?T ?R ?ES] v n by blast
  from a s have "anonymize ?T ?ES ?R = ?out" by (rule trans)
  with v n show ?thesis by (intro conjI)
qed

text \<open>
  Without valid spans the claim fails on entities that the adapter of \<open>backend/main.py\<close>
  hands to the anonymizer: a result without offsets gives the empty span at 0, which
  does not overlap the span \<open>[0, 10)\<close> of the number; the empty span is processed first
  and shifts the text, so the second replacement removes the token just inserted and
  the number stays in the output. It fails as well on non-empty, non-overlapping spans
  that end behind the text or start before it: the replacement made first moves the
  positions that the second one reads, and a token is cut.
\<close>

theorem anonymize_replaces_spans_counterexample:
  "snd (main_predict (returning [bare_result, leading_result]) ''9876543210 call'')
     = Inr [\<lparr>entity_group = ''UNKNOWN'', score = 0, word = [], start = 0, endpos = 0,
              detect_method = None\<rparr>,
            \<lparr>entity_group = ''TELEPHONENUM'', score = 0.9, word = ''9876543210'', start = 0,
              endpos = 10, detect_method = None\<rparr>] \<and>
   non_overlapping
     [\<lparr>entity_group = ''UNKNOWN'', score = 0, word = [], start = 0, endpos = 0,
        detect_method = None\<rparr>,
      \<lparr>entity_group = ''TELEPHONENUM'', score = 0.9, word = ''9876543210'', start = 0,
        endpos = 10, detect_method = None\<rparr>] \<and>
   anonymize ''9876543210 call''
     [\<lparr>entity_group = ''UNKNOWN'', score = 0, word = [], start = 0, endpos = 0,
        detect_method = None\<rparr>,
      \<lparr>entity_group = ''TELEPHONENUM'', score = 0.9, word = ''9876543210'', start = 0,
        endpos = 10, detect_method = None\<rparr>] ''[REDACTED]''
     = ''[REDACTED]9876543210 call'' \<and>
   redact_spec ''9876543210 call'' 0
     (sort_key start
        [\<lparr>entity_group = ''UNKNOWN'', score = 0, word = [], start = 0, endpos = 0,
           detect_method = None\<rparr>,
         \<lparr>entity_group = ''TELEPHONENUM'', score = 0.9, word = ''9876543210'', start = 0,
           endpos = 10, detect_method = None\<rparr>]) ''[REDACTED]''
     = ''[REDACTED][REDACTED] call'' \<and>
   non_overlapping [span_entity 12 14, span_entity 20 30] \<and>
   anonymize ''0123456789'' [span_entity 12 14, span_entity 20 30] ''[REDACTED]''
     = ''0123456789[R[REDACTED]ACTED]'' \<and>
   redact_spec ''0123456789'' 0 (sort_key start [span_entity 12 14, span_entity 20 30])
     ''[REDACTED]''
     = ''0123456789[REDACTED][REDACTED]'' \<and>
   non_overlapping [span_entity (- 6) (- 4), span_entity 0 2] \<and>
   anonymize ''abcdef'' [span_entity (- 6) (- 4), span_entity 0 2] ''[REDACTED]''
     = ''[REDACTE[REDACTED]cdef'' \<and>
   redact_spec ''abcdef'' 0 (sort_key start [span_entity (- 6) (- 4), span_entity 0 2])
     ''[REDACTED]''
     = ''[REDACTED][REDACTED]cdef''"
  by code_simp

text \<open>
  C7. For pairwise non-overlapping entities with valid spans, the length of the redacted
  text is the length of the text, minus the lengths of the spans, plus one replacement
  token per entity.
\<close>

theorem anonymize_length:
  assumes "list_all (valid_span text) entities" and "non_overlapping entities"
  shows "int (length (anonymize text entities R))
         = int (length text) - (\<Sum>e\<leftarrow>entities. endpos e - start e)
           + int (length entities) * int (length R)"
proof -
  have v: "\<forall>e\<in>set entities. valid_span text e" using assms(1) by (simp add: list_all_iff)
  note hyps = v assms(2)
  have ch: "chain_asc (int 0) (sort_key start entities)" by (rule chain_asc_sort_key[OF hyps])
  have "int (length (redact_spec text 0 (sort_key start entities) R))
        = int (length text) - int 0 - (\<Sum>e\<leftarrow>sort_key start entities. span_len e)
          + int (length (sort_key start entities)) * int (length R)"
    by (rule length_redact_spec[OF ch]) (use v in \<open>auto simp: valid_span_def\<close>)
  moreover have "(\<Sum>e\<leftarrow>sort_key start entities. span_len e) = (\<Sum>e\<leftarrow>entities. span_len e)"
    by (rule sum_list_sort_key)
  ultimately show ?thesis
    using anonymize_redact_spec[OF hyps, of R] by (simp add: span_len_def)
qed

theorem anonymize_length_witness:
  "list_all (valid_span ''Call 9876543210 now'')
     [\<lparr>entity_group = ''TELEPHONENUM'', score = 0.95, word = ''9876543210'', start = 5,
                  endpos = 15, detect_method = None\<rparr>] \<and>
   non_overlapping [\<lparr>entity_group = ''TELEPHONENUM'', score = 0.95, word = ''9876543210'', start = 5,
                      endpos = 15, detect_method = None\<rparr>] \<and>
   int (length (anonymize ''Call 9876543210 now''
     [\<lparr>entity_group = ''TELEPHONENUM'', score = 0.95, word = ''9876543210'', start = 5,
        endpos = 15, detect_method = None\<rparr>] ''***'')) = 19 - 10 + 1 * 3"
  (is "list_all (valid_span ?T) ?ES \<and> _ \<and> int (length (anonymize _ _ ?R)) = _")
proof -
  have v: "list_all (valid_span ?T) ?ES" by (simp add: valid_span_def)
  have n: "non_overlapping ?ES" by (simp add: non_overlapping_def)
  have "int (length (anonymize ?T ?ES ?R)) = 19 - 10 + 1 * 3"
    using anonymize_length[OF v n, of ?R] by simp
  with v n show ?thesis by (intro conjI)
qed

section \<open>Entity fuser: proofs\<close>

lemma merge_into_start [simp]: "start (merge_into c e) = start c"
  by (simp add: merge_into_def Let_def split: option.splits)

lemma merge_into_group [simp]: "entity_group (merge_into c e) = entity_group c"
  by (simp add: merge_into_def Let_def split: option.splits)

lemma merge_into_fuse_pair:
  "has_method c \<Longrightarrow> has_method e \<Longrightarrow> merge_into c e = fuse_pair c e"
  by (cases c; cases e) (auto simp: merge_into_def fuse_pair_def has_method_def Let_def)

lemma has_method_merge_into: "has_method e \<Longrightarrow> has_method (merge_into c e)"
  by (auto simp: merge_into_def has_method_def Let_def)

lemma merge_loop_acc: "merge_loop acc c es = acc @ merge_loop [] c es"
proof (induction es arbitrary: acc c)
  case Nil
  then show ?case by simp
next
  case (Cons e es)
  show ?case
  proof (cases "start e < endpos c \<and> entity_group e = entity_group c")
    case True
    then show ?thesis using Cons.IH[of acc "merge_into c e"] by simp
  next
    case False
    have "merge_loop acc c (e # es) = merge_loop (acc @ [c]) e es" using False by auto
    moreover have "merge_loop [] c (e # es) = merge_loop [c] e es" using False by auto
    ultimately show ?thesis using Cons.IH[of "acc @ [c]" e] Cons.IH[of "[c]" e] by simp
  qed
qed

lemma merge_loop_Cons:
  "merge_loop [] c (e # es) =
     (if mergeable c e then merge_loop [] (merge_into c e) es else c # merge_loop [] e es)"
  using merge_loop_acc[of "[c]" e es] by (simp add: mergeable_def)

declare merge_loop.simps(2) [simp del]

text \<open>The first entity of the output keeps the start and the category of the open entity.\<close>

lemma merge_loop_head:
  "\<exists>h t. merge_loop [] c es = h # t \<and> start h = start c \<and> entity_group h = entity_group c
         \<and> (es = [] \<longrightarrow> h = c) \<and> (\<forall>e r. es = e # r \<and> \<not> mergeable c e \<longrightarrow> h = c)"
proof (induction es arbitrary: c)
  case Nil
  then show ?case by simp
next
  case (Cons e es)
  show ?case
  proof (cases "mergeable c e")
    case True
    then show ?thesis using Cons.IH[of "merge_into c e"] by (auto simp: merge_loop_Cons)
  next
    case False
    then show ?thesis by (simp add: merge_loop_Cons)
  qed
qed

lemma merge_loop_length: "length (merge_loop [] c es) \<le> Suc (length es)"
proof (induction es arbitrary: c)
  case Nil
  then show ?case by simp
next
  case (Cons e es)
  show ?case using Cons.IH[of "merge_into c e"] Cons.IH[of e]
    by (simp add: merge_loop_Cons)
qed

lemma merge_loop_sorted:
  assumes "sorted (map start (c # es))"
  shows "sorted (map start (merge_loop [] c es)) \<and> (\<forall>x\<in>set (merge_loop [] c es). start c \<le> start x)"
  using assms
proof (induction es arbitrary: c)
  case Nil
  then show ?case by simp
next
  case (Cons e es)
  show ?case
  proof (cases "mergeable c e")
    case True
    have "sorted (map start (merge_into c e # es))" using Cons.prems by simp
    from Cons.IH[OF this] True show ?thesis by (simp add: merge_loop_Cons)
  next
    case False
    have "sorted (map start (e # es))" using Cons.prems by simp
    from Cons.IH[OF this] False Cons.prems show ?thesis
      by (auto simp: merge_loop_Cons)
  qed
qed

lemma settled_Cons_head:
  assumes "settled (h # t)" "\<not> mergeable c h"
  shows "settled (c # h # t)"
  using assms by simp

lemma mergeable_cong:
  "start h = start e \<Longrightarrow> entity_group h = entity_group e \<Longrightarrow> mergeable c h = mergeable c e"
  by (simp add: mergeable_def)

lemma merge_loop_settled: "settled (merge_loop [] c es)"
proof (induction es arbitrary: c)
  case Nil
  then show ?case by simp
next
  case (Cons e es)
  show ?case
  proof (cases "mergeable c e")
    case True
    then show ?thesis using Cons.IH[of "merge_into c e"] by (simp add: merge_loop_Cons)
  next
    case False
    obtain h t where ht: "merge_loop [] e es = h # t" "start h = start e"
      "entity_group h = entity_group e"
      using merge_loop_head[of e es] by blast
    have "\<not> mergeable c h" using False mergeable_cong[OF ht(2,3)] by simp
    moreover have "settled (h # t)" using Cons.IH[of e] ht(1) by simp
    ultimately show ?thesis using False ht(1) by (simp add: merge_loop_Cons)
  qed
qed

lemma merge_loop_settled_id: "settled (c # es) \<Longrightarrow> merge_loop [] c es = c # es"
proof (induction es arbitrary: c)
  case Nil
  then show ?case by simp
next
  case (Cons e es)
  then show ?case by (simp add: merge_loop_Cons)
qed

lemma sort_key_nonempty: "xs \<noteq> [] \<Longrightarrow> sort_key f xs \<noteq> []"
  by (metis length_sort length_0_conv)

lemma merge_entities_loop:
  assumes "sort_key start es = f # r"
  shows "merge_entities es = merge_loop [] f r"
proof -
  have "es \<noteq> []" using assms by auto
  then show ?thesis using assms by (simp add: merge_entities_def)
qed

lemma merge_entities_sorted: "sorted (map start (merge_entities es))"
proof (cases "sort_key start es")
  case Nil
  then have "es = []" using sort_key_nonempty by blast
  then show ?thesis by (simp add: merge_entities_def)
next
  case (Cons f r)
  have "sorted (map start (sort_key start es))" by simp
  then have "sorted (map start (f # r))" using Cons by simp
  from merge_loop_sorted[OF this] show ?thesis using merge_entities_loop[OF Cons] by simp
qed

lemma merge_entities_length: "length (merge_entities es) \<le> length es"
proof (cases "sort_key start es")
  case Nil
  then have "es = []" using sort_key_nonempty by blast
  then show ?thesis by (simp add: merge_entities_def)
next
  case (Cons f r)
  have "length (f # r) = length es" using Cons by (metis length_sort)
  then show ?thesis using merge_loop_length[of f r] merge_entities_loop[OF Cons] by simp
qed

lemma merge_entities_settled: "settled (merge_entities es)"
proof (cases "sort_key start es")
  case Nil
  then have "es = []" using sort_key_nonempty by blast
  then show ?thesis by (simp add: merge_entities_def)
next
  case (Cons f r)
  then show ?thesis using merge_loop_settled[of f r] merge_entities_loop[OF Cons] by simp
qed

lemma merge_entities_fixpoint:
  assumes "sorted (map start xs)" "settled xs"
  shows "merge_entities xs = xs"
proof (cases xs)
  case Nil
  then show ?thesis by (simp add: merge_entities_def)
next
  case (Cons f r)
  have "sort_key start xs = xs" by (rule sort_key_id_if_sorted[OF assms(1)])
  then have "sort_key start xs = f # r" using Cons by simp
  from merge_entities_loop[OF this] show ?thesis
    using merge_loop_settled_id[of f r] assms(2) Cons by simp
qed

text \<open>
  C8. Fusion is idempotent: fusing the output of the fuser again changes nothing.
\<close>

theorem merge_entities_idempotent: "merge_entities (merge_entities X) = merge_entities X"
  by (rule merge_entities_fixpoint[OF merge_entities_sorted merge_entities_settled])

text \<open>
  C10. The fused list is ordered by non-decreasing start offset and is never longer than
  the list of candidates.
\<close>

theorem merge_entities_sorted_bounded:
  "sorted (map start (merge_entities candidates)) \<and>
   length (merge_entities candidates) \<le> length candidates"
  using merge_entities_sorted merge_entities_length by blast

lemma fuse_loop:
  assumes "has_method c" "list_all has_method es"
  shows "fuse_flush (foldl fuse_step (out, Some c) es) = merge_loop out c es"
  using assms
proof (induction es arbitrary: out c)
  case Nil
  then show ?case by simp
next
  case (Cons e es)
  then have he: "has_method e" and hes: "list_all has_method es" by simp_all
  show ?case
  proof (cases "start e < endpos c \<and> entity_group e = entity_group c")
    case True
    have eq: "fuse_pair c e = merge_into c e"
      using merge_into_fuse_pair[OF Cons.prems(1) he] by simp
    have "has_method (merge_into c e)" by (rule has_method_merge_into[OF he])
    from Cons.IH[OF this hes, of out] True eq show ?thesis by (simp add: merge_loop.simps(2))
  next
    case False
    have "fuse_step (out, Some c) e = (out @ [c], Some e)" using False by auto
    moreover have "merge_loop out c (e # es) = merge_loop (out @ [c]) e es"
      using False by (auto simp: merge_loop.simps(2))
    ultimately show ?thesis using Cons.IH[OF he hes, of "out @ [c]"] by simp
  qed
qed

lemma merge_entities_eq_merge_spec:
  assumes "list_all has_method es"
  shows "merge_entities es = merge_spec es"
proof (cases "sort_key start es")
  case Nil
  then have "es = []" using sort_key_nonempty by blast
  then show ?thesis by (simp add: merge_entities_def merge_spec_def)
next
  case (Cons f r)
  have "list_all has_method (sort_key start es)" using assms by (simp add: list_all_iff)
  then have h: "has_method f" "list_all has_method r" using Cons by simp_all
  have "merge_spec es = fuse_flush (foldl fuse_step ([], Some f) r)"
    using Cons by (simp add: merge_spec_def)
  then show ?thesis using fuse_loop[OF h, of "[]"] merge_entities_loop[OF Cons] by simp
qed

text \<open>
  C4. The fuser returns the empty list for the empty list, and on candidates that carry
  a method it computes what the specification describes: the stable sort by start, then
  the single scan with an open entity, where an overlapping candidate of the same
  category is fused (end and score the maxima, text of the candidate examined last,
  methods joined by \<open>+\<close>), any other candidate closes the open entity and opens the
  next, and the last open entity is flushed.
\<close>

theorem merge_entities_refines_spec:
  "merge_entities [] = [] \<and>
   (list_all has_method candidates \<longrightarrow> merge_entities candidates = merge_spec candidates)"
  using merge_entities_eq_merge_spec by (simp add: merge_entities_def)

theorem merge_entities_refines_spec_witness:
  "list_all has_method
     [\<lparr>entity_group = ''EMAIL'', score = 0.95, word = ''arun@x.co'', start = 0,
        endpos = 9, detect_method = Some ''regex''\<rparr>,
      \<lparr>entity_group = ''EMAIL'', score = 0.8, word = ''arun@x.co'', start = 0,
        endpos = 9, detect_method = Some ''ml''\<rparr>] \<and>
   merge_entities
     [\<lparr>entity_group = ''EMAIL'', score = 0.95, word = ''arun@x.co'', start = 0,
        endpos = 9, detect_method = Some ''regex''\<rparr>,
      \<lparr>entity_group = ''EMAIL'', score = 0.8, word = ''arun@x.co'', start = 0,
        endpos = 9, detect_method = Some ''ml''\<rparr>]
     = [\<lparr>entity_group = ''EMAIL'', score = 0.95, word = ''arun@x.co'', start = 0,
          endpos = 9, detect_method = Some ''regex+ml''\<rparr>]"
  (is "list_all has_method ?ES \<and> merge_entities _ = ?out")
proof -
  have h: "list_all has_method ?ES" by (simp add: has_method_def)
  have s: "merge_spec ?ES = ?out" by (simp add: merge_spec_def fuse_pair_def)
  have a: "merge_entities ?ES = merge_spec ?ES"
    using merge_entities_refines_spec[of ?ES] h by blast
  from a s have "merge_entities ?ES = ?out" by (rule trans)
  with h show ?thesis by (intro conjI)
qed

section \<open>Schema validator: proofs\<close>

lemma first_specific_find:
  "first_specific ps t cs = find (pattern_matches ps t) cs"
  by (induction cs) (auto simp: pattern_matches_def split: option.splits)

lemma first_other_find:
  assumes "distinct (map fst ps)" "set rest \<subseteq> set ps"
  shows "first_other rest t
         = find (\<lambda>k. k \<noteq> ''STREET'' \<and> \<not> is_wildcard ps k \<and> pattern_matches ps t k) (map fst rest)"
  using assms(2)
proof (induction rest)
  case Nil
  then show ?case by simp
next
  case (Cons kv rest)
  obtain k v where kv: "kv = (k, v)" by (cases kv)
  have "(k, v) \<in> set ps" using Cons.prems kv by simp
  then have look: "map_of ps k = Some v" using assms(1) by simp
  have IH: "first_other rest t
         = find (\<lambda>k. k \<noteq> ''STREET'' \<and> \<not> is_wildcard ps k \<and> pattern_matches ps t k) (map fst rest)"
    using Cons by simp
  show ?case using look IH
    by (cases v) (simp_all add: kv is_wildcard_def pattern_matches_def)
qed

lemma find_filter: "find P (filter Q xs) = find (\<lambda>x. Q x \<and> P x) xs"
  by (induction xs) auto

lemma find_append_case:
  "find P (xs @ ys) = (case find P xs of Some x \<Rightarrow> Some x | None \<Rightarrow> find P ys)"
  by (induction xs) auto

lemma find_cong_set: "(\<And>x. x \<in> set xs \<Longrightarrow> P x = Q x) \<Longrightarrow> find P xs = find Q xs"
  by (induction xs) auto

lemma cross_candidates_find:
  assumes "\<not> pattern_matches ps t category"
  shows "find (pattern_matches ps t) (cross_candidates [''STREET''] ps category)
         = (case find (pattern_matches ps t) specific_categories of
              Some c \<Rightarrow> Some c
            | None \<Rightarrow> find (\<lambda>k. k \<noteq> ''STREET'' \<and> \<not> is_wildcard ps k \<and> pattern_matches ps t k)
                        (map fst ps))"
proof -
  let ?M = "pattern_matches ps t"
  have a: "find ?M [c \<leftarrow> specific_categories. c \<noteq> category] = find ?M specific_categories"
    unfolding find_filter using assms by (intro find_cong_set) auto
  show ?thesis
  proof (cases "find ?M specific_categories")
    case (Some c)
    then show ?thesis by (simp add: cross_candidates_def find_append_case a)
  next
    case None
    then have none: "\<And>c. c \<in> set specific_categories \<Longrightarrow> \<not> ?M c"
      by (simp add: find_None_iff)
    have "find ?M [c \<leftarrow> map fst ps. c \<notin> set specific_categories \<and> c \<noteq> category
                       \<and> c \<notin> set [''STREET''] \<and> \<not> is_wildcard ps c]
          = find (\<lambda>k. k \<noteq> ''STREET'' \<and> \<not> is_wildcard ps k \<and> ?M k) (map fst ps)"
      unfolding find_filter using assms none by (intro find_cong_set) auto
    then show ?thesis using None by (simp add: cross_candidates_def find_append_case a)
  qed
qed

lemma validate_entity_summary:
  assumes "distinct (map fst ps)"
  shows "verdict_summary (validate_entity ps category t conf) = validate_by [''STREET''] ps category t"
proof (cases "map_of ps category")
  case None
  then show ?thesis by (simp add: validate_entity_def validate_by_def verdict_summary_def)
next
  case (Some v)
  show ?thesis
  proof (cases v)
    case None
    then show ?thesis using Some
      by (simp add: validate_entity_def validate_by_def verdict_summary_def)
  next
    case (Some p)
    note look = \<open>map_of ps category = Some v\<close> Some
    show ?thesis
    proof (cases "match p t")
      case True
      then show ?thesis using look
        by (simp add: validate_entity_def validate_by_def verdict_summary_def)
    next
      case False
      then have nm: "\<not> pattern_matches ps t category" using look by (simp add: pattern_matches_def)
      have fo: "first_other ps t
         = find (\<lambda>k. k \<noteq> ''STREET'' \<and> \<not> is_wildcard ps k \<and> pattern_matches ps t k) (map fst ps)"
        by (rule first_other_find[OF assms]) simp
      show ?thesis using look False
        by (simp add: validate_entity_def validate_by_def verdict_summary_def
            cross_candidates_find[OF nm] first_specific_find fo cross_validated_def
            split: option.splits)
    qed
  qed
qed

lemma detector_validate_entity_summary:
  "verdict_summary (detector_validate_entity ps category t conf)
   = (pattern_matches ps t category, None, None)"
  by (simp add: detector_validate_entity_def verdict_summary_def pattern_matches_def
      split: option.splits)

section \<open>Detection and ML adapter: proofs\<close>

lemma validation_loop_partition:
  "validation_loop ps mc es (vs, fs, n) =
     (vs @ map (\<lambda>e. with_validation e (detector_verdict ps e) ''VALID'' None)
             (filter (accepted (detector_verdict ps) mc) es),
      fs @ map (\<lambda>e. with_validation e (detector_verdict ps e) ''FILTERED''
                        (Some (reason (detector_verdict ps e))))
             (filter (\<lambda>e. \<not> accepted (detector_verdict ps) mc e) es),
      n + length (filter (\<lambda>e. \<not> accepted (detector_verdict ps) mc e) es))"
  by (induction es arbitrary: vs fs n) (simp_all add: Let_def accepted_def detector_verdict_def)

lemma main_validation_loop_partition:
  "main_validation_loop ps mc es (vs, fs) =
     (vs @ map (\<lambda>e. corrected_entity e (main_verdict ps e))
             (filter (accepted (main_verdict ps) mc) es),
      fs @ map (\<lambda>e. with_validation e (main_verdict ps e) ''FILTERED''
                        (Some (reason (main_verdict ps e))))
             (filter (\<lambda>e. \<not> accepted (main_verdict ps) mc e) es))"
  by (induction es arbitrary: vs fs) (simp_all add: Let_def accepted_def main_verdict_def)

lemma status_with_validation [simp]:
  "status (with_validation e v st fr) = st"
  "filter_reason (with_validation e v st fr) = fr"
  "validation (with_validation e v st fr) = v"
  "entity_group (with_validation e v st fr) = entity_group e"
  "word (with_validation e v st fr) = word e"
  "score (with_validation e v st fr) = score e"
  "start (with_validation e v st fr) = start e"
  "endpos (with_validation e v st fr) = endpos e"
  by (simp_all add: with_validation_def entity.defs validated_entity.defs)

lemma status_corrected_entity [simp]:
  "status (corrected_entity e v) = ''VALID''"
  "validation (corrected_entity e v) = v"
  by (simp_all add: corrected_entity_def Let_def split: option.splits)


lemma normalize_result_offset_error:
  "offset_error r = Some ex \<Longrightarrow> normalize_result m text r = Inl ex"
  by (auto simp: normalize_result_def offset_error_def coerce_or_def split: coerced.splits)





lemma normalize_loop_drop:
  assumes "normalize_result (Some ''ml'') text bad = Inl ex" "ex = ValueError \<or> ex = TypeError"
  shows "normalize_loop text (rs1 @ bad # rs2) acc = normalize_loop text (rs1 @ rs2) acc"
proof (induction rs1 arbitrary: acc)
  case Nil
  then show ?case using assms by auto
next
  case (Cons r rs1)
  then show ?case by (simp split: sum.splits)
qed

lemma main_normalize_loop_snd_indep:
  "snd (main_normalize_loop text i rs printed acc) = snd (main_normalize_loop text j rs printed' acc)"
proof (induction rs arbitrary: i j printed printed' acc)
  case Nil
  then show ?case by simp
next
  case (Cons r rs)
  show ?case
  proof (cases "normalize_result None text r")
    case (Inl ex)
    then show ?thesis
      using Cons.IH[of "Suc i" "printed @ [Processing_result i, Skipping_malformed ex]" acc
          "Suc j" "printed' @ [Processing_result j, Skipping_malformed ex]"]
      by simp
  next
    case (Inr ent)
    then show ?thesis
      using Cons.IH[of "Suc i" "printed @ [Processing_result i]" "acc @ [ent]"
          "Suc j" "printed' @ [Processing_result j]"]
      by simp
  qed
qed

lemma main_normalize_loop_drop:
  assumes "normalize_result None text bad = Inl ex" "ex = ValueError \<or> ex = TypeError"
  shows "snd (main_normalize_loop text i (rs1 @ bad # rs2) printed acc)
         = snd (main_normalize_loop text i (rs1 @ rs2) printed acc)"
proof (induction rs1 arbitrary: i printed acc)
  case Nil
  have "snd (main_normalize_loop text i (bad # rs2) printed acc)
        = snd (main_normalize_loop text (Suc i) rs2
                 (printed @ [Processing_result i, Skipping_malformed ex]) acc)"
    using assms by auto
  also have "\<dots> = snd (main_normalize_loop text i rs2 printed acc)"
    by (rule main_normalize_loop_snd_indep)
  finally show ?case by simp
next
  case (Cons r rs1)
  then show ?case by (simp split: sum.splits)
qed

lemma main_predict_snd:
  "snd (main_predict pipe text) =
     (if text = [] \<or> py_strip text = [] then Inr []
      else case pipe text of
             Inl ex \<Rightarrow> Inl (HTTPException 500)
           | Inr results \<Rightarrow>
               (case snd (main_normalize_loop text 0 results [Running_inference, Raw_results] []) of
                  Inl ex \<Rightarrow> Inl (HTTPException 500)
                | Inr out \<Rightarrow> Inr out))"
  by (auto simp: main_predict_def split: sum.splits prod.splits)

lemma predict_drop:
  assumes "offset_error bad = Some ex" "ex = ValueError \<or> ex = TypeError"
    "pipe text = Inr (rs1 @ bad # rs2)" "pipe' text = Inr (rs1 @ rs2)"
  shows "predict pipe text = predict pipe' text"
proof -
  have "normalize_loop text (rs1 @ bad # rs2) [] = normalize_loop text (rs1 @ rs2) []"
    by (rule normalize_loop_drop[OF normalize_result_offset_error[OF assms(1)] assms(2)])
  then show ?thesis using assms(3,4) by (simp add: predict_def)
qed

lemma main_predict_drop:
  assumes "offset_error bad = Some ex" "ex = ValueError \<or> ex = TypeError"
    "pipe text = Inr (rs1 @ bad # rs2)" "pipe' text = Inr (rs1 @ rs2)"
  shows "snd (main_predict pipe text) = snd (main_predict pipe' text)"
proof -
  have "snd (main_normalize_loop text 0 (rs1 @ bad # rs2) [Running_inference, Raw_results] [])
        = snd (main_normalize_loop text 0 (rs1 @ rs2) [Running_inference, Raw_results] [])"
    by (rule main_normalize_loop_drop[OF normalize_result_offset_error[OF assms(1)] assms(2)])
  then show ?thesis using assms(3,4) by (simp add: main_predict_snd)
qed

text \<open>
  C1, as amended. For a table with distinct keys, \<open>validate_entity\<close> of
  \<open>backend/main.py\<close> returns the verdict of the specification, except that its fallback
  scan also skips the category named \<open>STREET\<close>, whatever its pattern: a known category
  whose pattern matches the text from the start is valid with that category as the
  corrected one; otherwise the first matching category among the prioritized list and
  then the remaining table entries (without \<open>STREET\<close> and without patterns written
  \<open>.*\<close>) is the corrected category and the original one is kept; otherwise the verdict is
  invalid. \<open>validate_entity\<close> of \<open>ValidatedEnhancedPIIDetector\<close> does no cross-validation:
  its verdict is valid exactly when the category's own pattern matches, and it names no
  corrected category.
\<close>

theorem validate_entity_cross_validation:
  assumes "distinct (map fst patterns)"
  shows "verdict_summary (validate_entity patterns category text conf)
           = validate_by [''STREET''] patterns category text \<and>
         verdict_summary (detector_validate_entity patterns category text conf)
           = (pattern_matches patterns text category, None, None)"
  using validate_entity_summary[OF assms] detector_validate_entity_summary by simp

theorem validate_entity_cross_validation_witness:
  "distinct (map fst id_schema) \<and>
   verdict_summary (validate_entity id_schema ''AADHAAR'' ''9876543210'' 1)
     = (True, Some ''TELEPHONENUM'', Some ''AADHAAR'') \<and>
   verdict_summary (detector_validate_entity id_schema ''AADHAAR'' ''9876543210'' 1)
     = (False, None, None)"
proof -
  have d: "distinct (map fst id_schema)" by code_simp
  have a: "validate_by [''STREET''] id_schema ''AADHAAR'' ''9876543210''
           = (True, Some ''TELEPHONENUM'', Some ''AADHAAR'')" by code_simp
  have b: "(pattern_matches id_schema ''9876543210'' ''AADHAAR'', None :: string option,
            None :: string option) = (False, None, None)" by code_simp
  show ?thesis
    using d validate_entity_cross_validation[OF d, of "''AADHAAR''" "''9876543210''" 1]
    unfolding a b by simp
qed

text \<open>
  The claim as it is stated fails on both validators: in the specification's own
  scenario the detector's validator rejects a telephone number labelled \<open>AADHAAR\<close>
  instead of correcting it, and \<open>validate_entity\<close> of \<open>backend/main.py\<close> rejects a text that
  only the (non-wildcard) pattern of a category named \<open>STREET\<close> matches.
\<close>

theorem validate_entity_cross_validation_counterexample:
  "verdict_summary (detector_validate_entity id_schema ''AADHAAR'' ''9876543210'' 1)
     \<noteq> validate_spec id_schema ''AADHAAR'' ''9876543210'' \<and>
   verdict_summary (validate_entity address_schema ''CITY'' ''7 Hill Road'' (9 / 10))
     \<noteq> validate_spec address_schema ''CITY'' ''7 Hill Road''"
  by code_simp

text \<open>
  C9. The valid flag of a verdict does not depend on the confidence, and the verdict
  carries the confidence it was given, for both validators.
\<close>

theorem validate_confidence_independent:
  "valid (validate_entity patterns category text conf1)
     = valid (validate_entity patterns category text conf2) \<and>
   confidence (validate_entity patterns category text conf1) = conf1 \<and>
   valid (detector_validate_entity patterns category text conf1)
     = valid (detector_validate_entity patterns category text conf2) \<and>
   confidence (detector_validate_entity patterns category text conf1) = conf1"
  by (simp add: validate_entity_def detector_validate_entity_def cross_validated_def
      split: option.splits)

lemma make_match_slice:
  "m_group (make_match text s e s1 e1) = py_slice text (m_start (make_match text s e s1 e1))
                                            (m_end (make_match text s e s1 e1)) \<and>
   m_group1 (make_match text s e s1 e1) = py_slice text (m_start1 (make_match text s e s1 e1))
                                            (m_end1 (make_match text s e s1 e1))"
  by (simp add: make_match_def)






















lemma py_or_expected_label:
  "py_or (r_entity_group r) (py_or (r_entity r) ''UNKNOWN'') = expected_label r"
  by (simp add: py_or_def expected_label_def split: option.splits list.splits)

lemma normalize_result_expected:
  "raises_nothing r \<Longrightarrow> normalize_result m text r = Inr (expected_entity m text r)"
  by (cases "r_start r"; cases "r_end r"; cases "r_score r")
     (simp_all add: raises_nothing_def normalize_result_def expected_entity_def coerce_or_def
        or_zero_def reconstruct_text_from_tokens_def py_or_expected_label)

lemma normalize_loop_expected:
  "list_all raises_nothing rs \<Longrightarrow>
   normalize_loop text rs acc = Inr (acc @ map (expected_entity (Some ''ml'') text) rs)"
  by (induction rs arbitrary: acc) (simp_all add: normalize_result_expected)

lemma main_normalize_loop_expected:
  "list_all raises_nothing rs \<Longrightarrow>
   snd (main_normalize_loop text i rs printed acc)
     = Inr (acc @ map (expected_entity None text) rs)"
  by (induction rs arbitrary: acc i printed) (simp_all add: normalize_result_expected)



lemma predict_drop_expected:
  assumes "\<not> blank text" "offset_error bad = Some ex" "ex = ValueError \<or> ex = TypeError"
    "pipe text = Inr (rs1 @ bad # rs2)" "list_all raises_nothing (rs1 @ rs2)"
  shows "predict pipe text = ([], map (expected_entity (Some ''ml'') text) (rs1 @ rs2))"
proof -
  have "normalize_loop text (rs1 @ bad # rs2) [] = normalize_loop text (rs1 @ rs2) []"
    by (rule normalize_loop_drop[OF normalize_result_offset_error[OF assms(2)] assms(3)])
  also have "\<dots> = Inr ([] @ map (expected_entity (Some ''ml'') text) (rs1 @ rs2))"
    by (rule normalize_loop_expected[OF assms(5)])
  finally show ?thesis using assms(1,4) by (simp add: predict_def blank_def)
qed

lemma main_predict_drop_expected:
  assumes "\<not> blank text" "offset_error bad = Some ex" "ex = ValueError \<or> ex = TypeError"
    "pipe text = Inr (rs1 @ bad # rs2)" "list_all raises_nothing (rs1 @ rs2)"
  shows "snd (main_predict pipe text) = Inr (map (expected_entity None text) (rs1 @ rs2))"
proof -
  have "snd (main_normalize_loop text 0 (rs1 @ bad # rs2) [Running_inference, Raw_results] [])
        = snd (main_normalize_loop text 0 (rs1 @ rs2) [Running_inference, Raw_results] [])"
    by (rule main_normalize_loop_drop[OF normalize_result_offset_error[OF assms(2)] assms(3)])
  also have "\<dots> = Inr ([] @ map (expected_entity None text) (rs1 @ rs2))"
    by (rule main_normalize_loop_expected[OF assms(5)])
  finally show ?thesis using assms(1,4) by (simp add: main_predict_snd blank_def)
qed

lemma truncate_with_validation [simp]: "entity.truncate (with_validation e v st fr) = e"
  by (simp add: with_validation_def entity.defs validated_entity.defs)

lemma corrected_entity_fields:
  "word (corrected_entity e v) = word e"
  "start (corrected_entity e v) = start e"
  "endpos (corrected_entity e v) = endpos e"
  "score (corrected_entity e v) = score e"
  "detect_method (corrected_entity e v) = detect_method e"
  "filter_reason (corrected_entity e v) = None"
  "entity_group (corrected_entity e v)
     = (case corrected_category v of Some cc \<Rightarrow> cc | None \<Rightarrow> entity_group e)"
  "entity_original_category (corrected_entity e v)
     = (case corrected_category v of Some cc \<Rightarrow> Some (entity_group e) | None \<Rightarrow> None)"
  by (simp_all add: corrected_entity_def Let_def with_validation_def entity.defs
      validated_entity.defs split: option.splits)

lemma detect_method_with_validation [simp]:
  "detect_method (with_validation e v st fr) = detect_method e"
  by (simp add: with_validation_def entity.defs validated_entity.defs)

lemma list_all2_map_same: "list_all2 P xs (map f xs) = list_all (\<lambda>x. P x (f x)) xs"
  by (induction xs) auto

text \<open>
  C3. The validation loop of \<open>detect_comprehensive\<close> puts every candidate into exactly
  one of the two lists, in the order of the candidates. The valid entities correspond
  one to one to the candidates whose verdict is valid and whose score reaches
  \<open>min_confidence\<close>: each is its candidate with the verdict of the candidate, the status
  \<open>VALID\<close> and no filter reason. The filtered entities correspond one to one to all
  other candidates: each is its candidate with the verdict, the status \<open>FILTERED\<close> and
  the verdict's reason as \<open>filter_reason\<close>. The loop of \<open>validated_detect_pii\<close> in
  \<open>backend/main.py\<close> partitions its candidates the same way; there a valid entity takes
  the corrected category of its verdict.
\<close>

theorem detection_partitions_candidates:
  "list_all2
     (\<lambda>e out. entity.truncate out = e \<and>
        validation out = detector_validate_entity vps (entity_group e) (word e) (score e) \<and>
        status out = ''VALID'' \<and> filter_reason out = None)
     (filter (\<lambda>e. valid (detector_validate_entity vps (entity_group e) (word e) (score e)) \<and>
                   mc \<le> score e)
        (detect_with_regex rps text @ detect_contextual_pii cps text))
     (det_entities (detect_comprehensive vps rps cps text mc)) \<and>
   list_all2
     (\<lambda>e out. entity.truncate out = e \<and>
        validation out = detector_validate_entity vps (entity_group e) (word e) (score e) \<and>
        status out = ''FILTERED'' \<and>
        filter_reason out
          = Some (reason (detector_validate_entity vps (entity_group e) (word e) (score e))))
     (filter (\<lambda>e. \<not> (valid (detector_validate_entity vps (entity_group e) (word e) (score e)) \<and>
                      mc \<le> score e))
        (detect_with_regex rps text @ detect_contextual_pii cps text))
     (det_filtered_entities (detect_comprehensive vps rps cps text mc)) \<and>
   length (det_entities (detect_comprehensive vps rps cps text mc))
     + length (det_filtered_entities (detect_comprehensive vps rps cps text mc))
     = length (detect_with_regex rps text @ detect_contextual_pii cps text) \<and>
   list_all2
     (\<lambda>e out. word out = word e \<and> start out = start e \<and> endpos out = endpos e \<and>
        score out = score e \<and> detect_method out = detect_method e \<and>
        validation out = validate_entity ps (entity_group e) (word e) (score e) \<and>
        status out = ''VALID'' \<and> filter_reason out = None \<and>
        entity_group out
          = (case corrected_category (validate_entity ps (entity_group e) (word e) (score e)) of
               Some cc \<Rightarrow> cc | None \<Rightarrow> entity_group e))
     (filter (\<lambda>e. valid (validate_entity ps (entity_group e) (word e) (score e)) \<and> mc \<le> score e)
        es)
     (fst (main_validation_loop ps mc es ([], []))) \<and>
   list_all2
     (\<lambda>e out. entity.truncate out = e \<and>
        validation out = validate_entity ps (entity_group e) (word e) (score e) \<and>
        status out = ''FILTERED'' \<and>
        filter_reason out = Some (reason (validate_entity ps (entity_group e) (word e) (score e))))
     (filter (\<lambda>e. \<not> (valid (validate_entity ps (entity_group e) (word e) (score e)) \<and>
                      mc \<le> score e))
        es)
     (snd (main_validation_loop ps mc es ([], [])))"
proof -
  let ?cands = "detect_with_regex rps text @ detect_contextual_pii cps text"
  let ?ok = "\<lambda>e. valid (detector_validate_entity vps (entity_group e) (word e) (score e)) \<and>
                 mc \<le> score e"
  let ?mok = "\<lambda>e. valid (validate_entity ps (entity_group e) (word e) (score e)) \<and> mc \<le> score e"
  have ok: "accepted (detector_verdict vps) mc = ?ok"
    by (rule ext) (simp add: accepted_def detector_verdict_def)
  have mok: "accepted (main_verdict ps) mc = ?mok"
    by (rule ext) (simp add: accepted_def main_verdict_def)
  have loop: "validation_loop vps mc ?cands ([], [], 0) =
     (map (\<lambda>e. with_validation e (detector_verdict vps e) ''VALID'' None) (filter ?ok ?cands),
      map (\<lambda>e. with_validation e (detector_verdict vps e) ''FILTERED''
                        (Some (reason (detector_verdict vps e))))
             (filter (\<lambda>e. \<not> ?ok e) ?cands),
      length (filter (\<lambda>e. \<not> ?ok e) ?cands))"
    using validation_loop_partition[of vps mc ?cands "[]" "[]" 0] unfolding ok by simp
  have a: "det_entities (detect_comprehensive vps rps cps text mc)
     = map (\<lambda>e. with_validation e (detector_verdict vps e) ''VALID'' None) (filter ?ok ?cands)"
    by (simp add: detect_comprehensive_def Let_def loop)
  have b: "det_filtered_entities (detect_comprehensive vps rps cps text mc)
     = map (\<lambda>e. with_validation e (detector_verdict vps e) ''FILTERED''
                   (Some (reason (detector_verdict vps e))))
         (filter (\<lambda>e. \<not> ?ok e) ?cands)"
    by (simp add: detect_comprehensive_def Let_def loop)
  have c: "length (filter ?ok ?cands) + length (filter (\<lambda>e. \<not> ?ok e) ?cands) = length ?cands"
    by (rule sum_length_filter_compl)
  have d: "main_validation_loop ps mc es ([], [])
     = (map (\<lambda>e. corrected_entity e (main_verdict ps e)) (filter ?mok es),
        map (\<lambda>e. with_validation e (main_verdict ps e) ''FILTERED''
                    (Some (reason (main_verdict ps e))))
          (filter (\<lambda>e. \<not> ?mok e) es))"
    using main_validation_loop_partition[of ps mc es "[]" "[]"] unfolding mok by simp
  show ?thesis
    unfolding a b d fst_conv snd_conv list_all2_map_same
    using c
    by (simp add: list_all_iff detector_verdict_def main_verdict_def corrected_entity_fields)
qed






text \<open>
  C6, as amended. When the collaborator raises on a non-blank text, \<open>_predict\<close> of
  \<open>backend/enhanced_main.py\<close> (and of \<open>backend/validated_enhanced_main.py\<close>) logs the error
  and returns the empty list. \<open>_predict\<close> of \<open>backend/main.py\<close> logs it and raises an HTTP
  500 error instead: the legacy extraction endpoint passes that error on, while the
  validated endpoint catches it and goes on without ML candidates. In every version a
  result whose offset coercion raises \<open>ValueError\<close> or \<open>TypeError\<close> is dropped: the call
  returns what it returns without that result, and when no other coercion raises, that
  is one entity for each of the remaining results, in their order, with nothing logged
  by \<open>_predict\<close> of the enhanced backends.
\<close>

theorem predict_failure_handling:
  "(\<not> blank text \<and> pipe text = Inl ex \<longrightarrow>
      predict pipe text = ([Inference_error ex], []) \<and>
      main_predict pipe text
        = ([Running_inference, Inference_error ex], Inl (HTTPException 500)) \<and>
      extract_pii_bert (Some pipe) text = Inl (HTTPException 500) \<and>
      snd (ml_candidates True (Some pipe) text) = [] \<and>
      det_entities (validated_detect_pii ps (Some pipe) None text True mc) = [] \<and>
      det_filtered_entities (validated_detect_pii ps (Some pipe) None text True mc) = []) \<and>
   (offset_error bad = Some ex' \<and> (ex' = ValueError \<or> ex' = TypeError) \<and>
    pipe text = Inr (rs1 @ bad # rs2) \<and> pipe' text = Inr (rs1 @ rs2) \<longrightarrow>
      predict pipe text = predict pipe' text \<and>
      snd (main_predict pipe text) = snd (main_predict pipe' text)) \<and>
   (\<not> blank text \<and> offset_error bad = Some ex' \<and> (ex' = ValueError \<or> ex' = TypeError) \<and>
    pipe text = Inr (rs1 @ bad # rs2) \<and> list_all raises_nothing (rs1 @ rs2) \<longrightarrow>
      predict pipe text = ([], map (expected_entity (Some ''ml'') text) (rs1 @ rs2)) \<and>
      snd (main_predict pipe text) = Inr (map (expected_entity None text) (rs1 @ rs2)))"
proof (intro conjI impI)
  assume a: "\<not> blank text \<and> pipe text = Inl ex"
  then show "predict pipe text = ([Inference_error ex], [])"
    by (simp add: predict_def blank_def)
  from a show m: "main_predict pipe text
        = ([Running_inference, Inference_error ex], Inl (HTTPException 500))"
    by (simp add: main_predict_def blank_def)
  from m show "extract_pii_bert (Some pipe) text = Inl (HTTPException 500)"
    by (simp add: extract_pii_bert_def)
  from m show c: "snd (ml_candidates True (Some pipe) text) = []"
    by (simp add: ml_candidates_def)
  from a c show "det_entities (validated_detect_pii ps (Some pipe) None text True mc) = []"
    by (simp add: validated_detect_pii_def blank_def ml_candidates_def)
  from a c show "det_filtered_entities (validated_detect_pii ps (Some pipe) None text True mc) = []"
    by (simp add: validated_detect_pii_def blank_def ml_candidates_def)
next
  assume a: "offset_error bad = Some ex' \<and> (ex' = ValueError \<or> ex' = TypeError) \<and>
    pipe text = Inr (rs1 @ bad # rs2) \<and> pipe' text = Inr (rs1 @ rs2)"
  then show "predict pipe text = predict pipe' text"
    using predict_drop[of bad ex' pipe "text" rs1 rs2 pipe'] by blast
  from a show "snd (main_predict pipe text) = snd (main_predict pipe' text)"
    using main_predict_drop[of bad ex' pipe "text" rs1 rs2 pipe'] by blast
next
  assume a: "\<not> blank text \<and> offset_error bad = Some ex' \<and> (ex' = ValueError \<or> ex' = TypeError) \<and>
    pipe text = Inr (rs1 @ bad # rs2) \<and> list_all raises_nothing (rs1 @ rs2)"
  then show "predict pipe text = ([], map (expected_entity (Some ''ml'') text) (rs1 @ rs2))"
    using predict_drop_expected[of "text" bad ex' pipe rs1 rs2] by blast
  from a show "snd (main_predict pipe text) = Inr (map (expected_entity None text) (rs1 @ rs2))"
    using main_predict_drop_expected[of "text" bad ex' pipe rs1 rs2] by blast
qed

theorem predict_failure_handling_witness:
  "\<not> blank ''hello'' \<and> failing RuntimeError ''hello'' = Inl RuntimeError \<and>
   predict (failing RuntimeError) ''hello'' = ([Inference_error RuntimeError], []) \<and>
   extract_pii_bert (Some (failing RuntimeError)) ''hello'' = Inl (HTTPException 500) \<and>
   \<not> blank ''Call 9876543210'' \<and>
   offset_error (malformed_result ValueError) = Some ValueError \<and>
   returning ([phone_result] @ malformed_result ValueError # [bare_result])
     ''Call 9876543210'' = Inr ([phone_result] @ malformed_result ValueError # [bare_result]) \<and>
   returning ([phone_result] @ [bare_result]) ''Call 9876543210''
     = Inr ([phone_result] @ [bare_result]) \<and>
   list_all raises_nothing ([phone_result] @ [bare_result]) \<and>
   predict (returning ([phone_result] @ malformed_result ValueError # [bare_result]))
     ''Call 9876543210''
     = predict (returning ([phone_result] @ [bare_result])) ''Call 9876543210'' \<and>
   predict (returning ([phone_result] @ malformed_result ValueError # [bare_result]))
     ''Call 9876543210''
     = ([], [\<lparr>entity_group = ''TELEPHONENUM'', score = 0.9, word = ''9876543210'', start = 5,
               endpos = 15, detect_method = Some ''ml''\<rparr>,
             \<lparr>entity_group = ''UNKNOWN'', score = 0, word = [], start = 0, endpos = 0,
               detect_method = Some ''ml''\<rparr>])"
  (is "?nb \<and> ?f \<and> ?p \<and> ?x \<and> ?nb2 \<and> ?oe \<and> ?r1 \<and> ?r2 \<and> ?rn \<and> ?d \<and> ?e")
proof -
  let ?T = "''Call 9876543210''"
  let ?pipe = "returning ([phone_result] @ malformed_result ValueError # [bare_result])"
  have nb: ?nb by code_simp
  have f: ?f by (simp add: failing_def)
  have nb2: ?nb2 by code_simp
  have oe: ?oe by code_simp
  have r1: ?r1 by (simp add: returning_def)
  have r2: ?r2 by (simp add: returning_def)
  have rn: ?rn by code_simp
  have ex: "map (expected_entity (Some ''ml'') ?T) ([phone_result] @ [bare_result])
            = [\<lparr>entity_group = ''TELEPHONENUM'', score = 0.9, word = ''9876543210'', start = 5,
                 endpos = 15, detect_method = Some ''ml''\<rparr>,
               \<lparr>entity_group = ''UNKNOWN'', score = 0, word = [], start = 0, endpos = 0,
                 detect_method = Some ''ml''\<rparr>]"
    by code_simp
  have px: "?p \<and> ?x"
    using predict_failure_handling[of "''hello''" "failing RuntimeError" RuntimeError] nb f
    by blast
  note inst = predict_failure_handling[of ?T ?pipe _ _ _
        "malformed_result ValueError" ValueError "[phone_result]" "[bare_result]"
        "returning ([phone_result] @ [bare_result])"]
  have d: ?d using inst oe r1 r2 by blast
  have "predict ?pipe ?T
        = ([], map (expected_entity (Some ''ml'') ?T) ([phone_result] @ [bare_result]))"
    using inst nb2 oe r1 rn by blast
  then have e: ?e unfolding ex .
  from nb f px nb2 oe r1 r2 rn d e show ?thesis by (intro conjI) simp_all
qed

text \<open>
  The claim as stated fails on \<open>backend/main.py\<close>, whose adapter turns a failure of the
  collaborator into an HTTP 500 error that the extraction endpoint returns; and a result
  whose offset coercion raises \<open>OverflowError\<close> (an infinite float) is not dropped alone:
  the whole call returns the empty list.
\<close>

theorem predict_failure_handling_counterexample:
  "snd (main_predict (failing RuntimeError) ''hello'') = Inl (HTTPException 500) \<and>
   extract_pii_bert (Some (failing RuntimeError)) ''hello'' = Inl (HTTPException 500) \<and>
   predict (returning [phone_result, malformed_result OverflowError]) ''Call 9876543210''
     = ([Inference_error OverflowError], []) \<and>
   predict (returning [phone_result]) ''Call 9876543210''
     = ([], [\<lparr>entity_group = ''TELEPHONENUM'', score = 0.9, word = ''9876543210'', start = 5,
               endpos = 15, detect_method = Some ''ml''\<rparr>])"
  by code_simp

end
